theory Spec2Isabelle
  imports Complex_Main "HOL-Library.Multiset"
begin

section \<open>Python values used by \<open>pcfg/src/parser.py\<close>\<close>

text \<open>
  The exceptions that the modelled code can raise. \<open>SystemExit n\<close> is what
  \<open>sys.exit(n)\<close> raises; nothing in \<open>parser.py\<close> catches an exception, so each
  of them leaves every enclosing call.
\<close>

datatype error = IndexError | ValueError | TypeError | SystemExit nat

text \<open>
  Weights and scores are Python floats. They are idealised as reals: the order in which a
  Python 2 dictionary yields its values is not fixed, and the sum of the values does not
  depend on that order in the reals.

  A dictionary that the code iterates over (\<open>ff\<close>, \<open>features\<close>) is an association list
  with the keys in insertion order; \<open>dict_set\<close> is the assignment \<open>d[k] = v\<close>. The phrase
  tables are only looked up, so they are maps.
\<close>

type_synonym 'v dict = "(string \<times> 'v) list"

fun dict_set :: "string \<Rightarrow> 'v \<Rightarrow> 'v dict \<Rightarrow> 'v dict" where
  "dict_set k v [] = [(k, v)]"
| "dict_set k v ((k', v') # d) = (if k' = k then (k, v) # d else (k', v') # dict_set k v d)"

definition dict_keys :: "'v dict \<Rightarrow> string list" where
  "dict_keys d = map fst d"

definition dict_values :: "'v dict \<Rightarrow> 'v list" where
  "dict_values d = map snd d"

text \<open>\<open>d.update(e)\<close>: the entries of \<open>e\<close> are assigned into \<open>d\<close> one after the other.\<close>

definition dict_update :: "'v dict \<Rightarrow> 'v dict \<Rightarrow> 'v dict" where
  "dict_update d e = foldl (\<lambda>acc kv. dict_set (fst kv) (snd kv) acc) d e"

subsection \<open>String methods\<close>

text \<open>The whitespace of a Python 2 byte string: space, tab, newline, VT, FF, CR.\<close>

definition is_space :: "char \<Rightarrow> bool" where
  "is_space c = (c = CHR '' '' \<or> c = CHR 0x09 \<or> c = CHR 0x0A \<or> c = CHR 0x0B
                 \<or> c = CHR 0x0C \<or> c = CHR 0x0D)"

text \<open>\<open>s.strip()\<close>\<close>

definition strip :: "string \<Rightarrow> string" where
  "strip s = rev (dropWhile is_space (rev (dropWhile is_space s)))"

text \<open>
  \<open>s.split()\<close>: the maximal runs of non-whitespace characters, in order. \<open>cur\<close> is the
  run being read.
\<close>

fun split_ws_aux :: "string \<Rightarrow> string \<Rightarrow> string list" where
  "split_ws_aux cur [] = (if cur = [] then [] else [cur])"
| "split_ws_aux cur (c # cs) =
     (if is_space c then (if cur = [] then split_ws_aux [] cs else cur # split_ws_aux [] cs)
      else split_ws_aux (cur @ [c]) cs)"

definition split_ws :: "string \<Rightarrow> string list" where
  "split_ws s = split_ws_aux [] s"

text \<open>
  \<open>s.split("|||")\<close>: the text is cut at each occurrence of the delimiter, found from
  left to right without overlap; the result always has at least one part.
\<close>

fun split_bars_aux :: "string \<Rightarrow> string \<Rightarrow> string list" where
  "split_bars_aux cur [] = [cur]"
| "split_bars_aux cur (c # cs) =
     (if c = CHR ''|'' \<and> take 2 cs = ''||'' then cur # split_bars_aux [] (drop 2 cs)
      else split_bars_aux (cur @ [c]) cs)"

definition split_bars :: "string \<Rightarrow> string list" where
  "split_bars s = split_bars_aux [] s"

text \<open>\<open>' '.join(xs)\<close>\<close>

fun join_space :: "string list \<Rightarrow> string" where
  "join_space [] = []"
| "join_space [x] = x"
| "join_space (x # y # ys) = x @ '' '' @ join_space (y # ys)"

section \<open>The parser object\<close>

text \<open>
  The fields that \<open>Parser.__init__\<close> sets. The two phrase tables are \<open>None\<close> until
  \<open>make_phrase_table\<close> has run. The two command lengths are numbers of tokens (the
  constructor's docstring), hence naturals. The state that the parser inherits from
  \<open>Enumerator\<close> is kept apart, see below.
\<close>

type_synonym table = "string \<rightharpoonup> (string \<rightharpoonup> real)"

record parser =
  P2TScores :: "table option"
  T2PScores :: "table option"
  redundant_word_score :: real
  ungrounded_token_score :: real
  min_command_length :: nat
  max_command_length :: nat

definition Parser_init :: "nat \<Rightarrow> nat \<Rightarrow> parser" where
  "Parser_init min_cl max_cl =
     \<lparr> P2TScores = None, T2PScores = None, redundant_word_score = 0,
       ungrounded_token_score = - (1 / 100000),
       min_command_length = min_cl, max_command_length = max_cl \<rparr>"

subsection \<open>\<open>make_phrase_table\<close>\<close>

text \<open>
  \<open>t[a][b] = w\<close> on a \<open>defaultdict(dict)\<close>: a missing inner dictionary is created
  empty first.
\<close>

definition table_set :: "table \<Rightarrow> string \<Rightarrow> string \<Rightarrow> real \<Rightarrow> table" where
  "table_set t a b w = t(a \<mapsto> (case t a of None \<Rightarrow> Map.empty | Some m \<Rightarrow> m)(b \<mapsto> w))"

text \<open>\<open>t[a][b]\<close> as an optional value, for stating what a table holds.\<close>

definition table_get :: "table \<Rightarrow> string \<Rightarrow> string \<Rightarrow> real option" where
  "table_get t a b = (case t a of None \<Rightarrow> None | Some m \<Rightarrow> m b)"

text \<open>
  One iteration of the loop over the lines, up to the two assignments. The builtin
  \<open>float\<close> is the parameter \<open>pyfloat\<close>, with \<open>None\<close> where \<open>float(s)\<close> raises
  \<open>ValueError\<close>. \<open>parts[1]\<close> and \<open>parts[2]\<close> raise \<open>IndexError\<close> when the line has
  too few parts; the conversions are all made before the list is unpacked into four
  names, and both failures are a \<open>ValueError\<close>. The result is the phrase, the snippet
  and \<open>lex_nl_cmd\<close>, the value that is stored.
\<close>

definition read_record :: "(string \<Rightarrow> real option) \<Rightarrow> string \<Rightarrow> error + (string \<times> string \<times> real)" where
  "read_record pyfloat line =
     (let parts = split_bars (strip line);
          nl_phrase = strip (parts ! 0)
      in if length parts < 2 then Inl IndexError
         else let cmd_snippet = strip (parts ! 1)
              in if length parts < 3 then Inl IndexError
                 else (case those (map pyfloat (split_ws (parts ! 2))) of
                         None \<Rightarrow> Inl ValueError
                       | Some [phi_cmd_nl, lex_cmd_nl, phi_nl_cmd, lex_nl_cmd] \<Rightarrow>
                           Inr (nl_phrase, cmd_snippet, lex_nl_cmd)
                       | Some _ \<Rightarrow> Inl ValueError))"

text \<open>
  The loop body on the two tables, and the loop. An exception leaves the loop with the
  tables as the earlier lines have made them: the result is the exception, if any, and
  the two tables.
\<close>

fun load_lines :: "(string \<Rightarrow> real option) \<Rightarrow> string list \<Rightarrow> table \<times> table \<Rightarrow> error option \<times> table \<times> table" where
  "load_lines pyfloat [] (p2t, t2p) = (None, p2t, t2p)"
| "load_lines pyfloat (line # rest) (p2t, t2p) =
     (case read_record pyfloat line of
        Inl e \<Rightarrow> (Some e, p2t, t2p)
      | Inr (nl_phrase, cmd_snippet, lex_nl_cmd) \<Rightarrow>
          load_lines pyfloat rest
            (table_set p2t nl_phrase cmd_snippet lex_nl_cmd,
             table_set t2p cmd_snippet nl_phrase lex_nl_cmd))"

text \<open>
  \<open>make_phrase_table\<close> on the lines of the input file (\<open>f.readlines()\<close>): both fields
  are first set to empty tables, then filled line by line. The result is the exception
  raised, if any, and the parser object as the call leaves it.
\<close>

definition make_phrase_table :: "(string \<Rightarrow> real option) \<Rightarrow> parser \<Rightarrow> string list \<Rightarrow> error option \<times> parser" where
  "make_phrase_table pyfloat self lines =
     (case load_lines pyfloat lines (Map.empty, Map.empty) of
        (r, p2t, t2p) \<Rightarrow> (r, self\<lparr>P2TScores := Some p2t, T2PScores := Some t2p\<rparr>))"

text \<open>
  A stand-in for \<open>float\<close> on which concrete inputs are evaluated: it gives an unsigned
  decimal numeral without a fraction the value that \<open>float\<close> gives it, and rejects
  every other text, of which \<open>float\<close> accepts some. The digits are the characters with
  the codes 48 to 57.
\<close>

definition digit_val :: "char \<Rightarrow> nat option" where
  "digit_val c =
     (let code = (of_char c :: nat)
      in if 48 \<le> code \<and> code \<le> 57 then Some (code - 48) else None)"

definition float_digits :: "string \<Rightarrow> real option" where
  "float_digits s =
     (if s = [] then None
      else (case those (map digit_val s) of
              None \<Rightarrow> None
            | Some ds \<Rightarrow> Some (real (foldl (\<lambda>a d. 10 * a + d) 0 ds))))"

section \<open>Cells\<close>

text \<open>
  The object that \<open>Cell.__init__\<close> builds, with the fields it assigns. A backpointer is
  either \<open>None\<close> or a cell, and a cell is never changed during the traversal, so the
  chain of backpointers is part of the value.
\<close>

datatype cell = Cell (term_c: string) (parent: "cell option") (backpointer: "cell option")
  (length_c: nat) (score: real) (covered_words: "string set") (features: "real dict")

text \<open>
  \<open>Cell(t, p, bp, ff)\<close>. \<open>sum(ff.values())\<close> adds the values to 0. The loop over
  \<open>ff\<close> assigns \<open>ff[w]\<close>, the value stored with the key \<open>w\<close>, to the key
  \<open>"{}->{}".format(w, t)\<close>.
\<close>

definition Cell_init :: "string \<Rightarrow> cell option \<Rightarrow> cell option \<Rightarrow> real dict \<Rightarrow> cell" where
  "Cell_init t p bp ff =
     Cell t p bp
       (case bp of Some b \<Rightarrow> length_c b + 1 | None \<Rightarrow> 0)
       (case bp of Some b \<Rightarrow> score b + sum_list (dict_values ff) | None \<Rightarrow> 0)
       (set (dict_keys ff))
       (foldl (\<lambda>fs wv. dict_set (fst wv @ ''->'' @ t) (snd wv) fs) [] ff)"

text \<open>
  \<open>cnl_words\<close>: the \<open>while (bp)\<close> loop on the backpointer, with the set collected so
  far.
\<close>

fun cnl_words_loop :: "cell option \<Rightarrow> string set \<Rightarrow> string set" where
  "cnl_words_loop None covered = covered"
| "cnl_words_loop (Some (Cell t p bp n s cw fs)) covered = cnl_words_loop bp (covered \<union> cw)"

definition cnl_words :: "cell \<Rightarrow> string set" where
  "cnl_words self = cnl_words_loop (backpointer self) (covered_words self)"

text \<open>\<open>featureSet\<close>: the same walk, with \<open>featureSet.update(bp.features)\<close>.\<close>

fun featureSet_loop :: "cell option \<Rightarrow> real dict \<Rightarrow> real dict" where
  "featureSet_loop None fset = fset"
| "featureSet_loop (Some (Cell t p bp n s cw fs)) fset = featureSet_loop bp (dict_update fset fs)"

definition featureSet :: "cell \<Rightarrow> real dict" where
  "featureSet self = featureSet_loop (backpointer self) (features self)"

text \<open>
  \<open>genCommand\<close>. \<open>hole\<close> is \<open>Enumerator.HOLE\<close>; \<open>command.insert(0, x)\<close> puts \<open>x\<close> in
  front, and \<open>command[1:]\<close> drops the first entry.
\<close>

fun genCommand_loop :: "string \<Rightarrow> cell option \<Rightarrow> string list \<Rightarrow> string list" where
  "genCommand_loop hole None command = command"
| "genCommand_loop hole (Some (Cell t p bp n s cw fs)) command =
     genCommand_loop hole bp ((if t = hole then ''*'' else t) # command)"

definition genCommand :: "string \<Rightarrow> cell \<Rightarrow> string" where
  "genCommand hole self =
     join_space (drop 1 (genCommand_loop hole (backpointer self)
                           [if term_c self = hole then ''*'' else term_c self]))"

section \<open>The enumerator\<close>

text \<open>
  \<open>Parser\<close> extends \<open>Enumerator\<close>, a class of the module \<open>grammar\<close>, which is not among
  the sources. Its part is a parameter: a type \<open>'g\<close> of enumerator states and the
  operations that \<open>parser.py\<close> calls on \<open>self\<close>, with the two class constants. The three
  queries read the state; \<open>push\<close> and \<open>pop\<close> change it. \<open>legal_tokens\<close> gives the
  tokens in the order in which the \<open>for\<close> loop receives them.
\<close>

record 'g enumerator =
  HOLE :: string
  EOF :: string
  allows :: "'g \<Rightarrow> string \<Rightarrow> bool"
  push :: "'g \<Rightarrow> string \<Rightarrow> 'g"
  pop :: "'g \<Rightarrow> 'g"
  legal_tokens :: "'g \<Rightarrow> string list"
  allow_eof :: "'g \<Rightarrow> bool"

text \<open>
  An enumerator that also writes down every \<open>push\<close> and \<open>pop\<close> it receives, in order.
  It answers every query as the enumerator it wraps.
\<close>

datatype event = Push string | Pop

definition traced :: "'g enumerator \<Rightarrow> ('g \<times> event list) enumerator" where
  "traced E =
     \<lparr> HOLE = HOLE E, EOF = EOF E,
       allows = (\<lambda>(g, tr) t. allows E g t),
       push = (\<lambda>(g, tr) t. (push E g t, tr @ [Push t])),
       pop = (\<lambda>(g, tr). (pop E g, tr @ [Pop])),
       legal_tokens = (\<lambda>(g, tr). legal_tokens E g),
       allow_eof = (\<lambda>(g, tr). allow_eof E g) \<rparr>"

section \<open>The search\<close>

text \<open>
  \<open>local_score\<close>. \<open>term in self.T2PScores\<close> raises \<open>TypeError\<close> while the table is
  \<open>None\<close>.
\<close>

definition local_score :: "parser \<Rightarrow> string \<Rightarrow> string list \<Rightarrow> error + real dict" where
  "local_score self t words =
     (case T2PScores self of
        None \<Rightarrow> Inl TypeError
      | Some t2p \<Rightarrow>
          (case t2p t of
             None \<Rightarrow> Inr []
           | Some m \<Rightarrow>
               Inr (foldl (\<lambda>fired_features word.
                             case m word of None \<Rightarrow> fired_features
                             | Some w \<Rightarrow> dict_set word w fired_features) [] words)))"

text \<open>\<open>final_score\<close> adds the penalty to the score of the cell.\<close>

definition final_score :: "parser \<Rightarrow> cell \<Rightarrow> string list \<Rightarrow> cell" where
  "final_score self c words =
     Cell (term_c c) (parent c) (backpointer c) (length_c c)
       (score c + redundant_word_score self * real (card (set words - cnl_words c)))
       (covered_words c) (features c)"

text \<open>The term of the start cell, a literal that \<open>parse\<close> and \<open>dfs\<close> both write out.\<close>

definition START_SYMBOL :: string where
  "START_SYMBOL = ''__START_SYMBOL__''"

text \<open>
  \<open>dfs\<close>. The state that the calls share is the enumerator state \<open>g\<close> of \<open>self\<close> and
  the list \<open>final_cells\<close>. A result \<open>Inl e\<close> is the exception \<open>e\<close>. The recursion is
  not bounded for every cell and every enumerator, so the first argument bounds its
  depth, and \<open>None\<close> says that the bound was too small.

  \<open>dfs_for\<close> is the \<open>for term in self.legal_tokens()\<close> loop on the tokens that are
  left. The loop variable is the local variable \<open>term\<close> of \<open>dfs\<close>: the loop returns
  the value that \<open>term\<close> has when the loop ends, which is the last token, or the old
  value when there was no token. The test before \<open>self.pop()\<close> reads that value.
\<close>

fun dfs :: "nat \<Rightarrow> parser \<Rightarrow> 'g enumerator \<Rightarrow> cell \<Rightarrow> string list \<Rightarrow> 'g \<times> cell list
              \<Rightarrow> (error + 'g \<times> cell list) option"
and dfs_for :: "nat \<Rightarrow> parser \<Rightarrow> 'g enumerator \<Rightarrow> cell \<Rightarrow> string list \<Rightarrow> string list \<Rightarrow> string
              \<Rightarrow> 'g \<times> cell list \<Rightarrow> (error + string \<times> 'g \<times> cell list) option" where
  "dfs 0 self E c words (g, final_cells) = None"
| "dfs (Suc n) self E c words (g, final_cells) =
     (let t = term_c c in
      if t = EOF E then Some (Inr (g, final_cells))
      else if t = ''|'' then Some (Inr (g, final_cells))
      else
        let final_cells1 =
              (if length_c c > min_command_length self \<and> allow_eof E g
               then final_cells @ [c] else final_cells)
        in if length_c c = max_command_length self then Some (Inr (g, final_cells1))
           else if t \<noteq> START_SYMBOL \<and> \<not> allows E g t then Some (Inl (SystemExit 1))
           else
             let g1 = (if t \<noteq> START_SYMBOL then push E g t else g)
             in (case dfs_for n self E c words (legal_tokens E g1) t (g1, final_cells1) of
                   None \<Rightarrow> None
                 | Some (Inl e) \<Rightarrow> Some (Inl e)
                 | Some (Inr (t', g2, final_cells2)) \<Rightarrow>
                     Some (Inr (if t' \<noteq> START_SYMBOL then pop E g2 else g2,
                                final_cells2))))"
| "dfs_for n self E c words [] t st = Some (Inr (t, st))"
| "dfs_for n self E c words (tok # toks) t st =
     (case local_score self tok words of
        Inl e \<Rightarrow> Some (Inl e)
      | Inr fired_features \<Rightarrow>
          (case dfs n self E (Cell_init tok None (Some c) fired_features) words st of
             None \<Rightarrow> None
           | Some (Inl e) \<Rightarrow> Some (Inl e)
           | Some (Inr st') \<Rightarrow> dfs_for n self E c words toks tok st'))"

text \<open>
  \<open>parse\<close>, with the lines it prints for the ranked cells as its result: one row for
  each cell, with the six values of the line. \<open>sorted(..., reverse=True)\<close> orders by
  falling key and keeps cells of equal key in their order, which is the stable sort on
  the negated key. The start cell has length 0, so the traversal is never deeper than
  \<open>max_command_length + 1\<close> calls.
\<close>

record row =
  command :: string
  row_score :: real
  row_length :: nat
  aligned :: "string set"
  uncovered :: "string set"
  feature_set :: "real dict"

definition start_cell :: cell where
  "start_cell = Cell_init START_SYMBOL None None []"

definition rank :: "nat \<Rightarrow> cell list \<Rightarrow> cell list" where
  "rank top_K cells = take top_K (sort_key (\<lambda>x. - score x) cells)"

definition print_row :: "'g enumerator \<Rightarrow> string set \<Rightarrow> cell \<Rightarrow> row" where
  "print_row E word_set c =
     \<lparr> command = genCommand (HOLE E) c, row_score = score c, row_length = length_c c,
       aligned = cnl_words c, uncovered = word_set - cnl_words c,
       feature_set = featureSet c \<rparr>"

definition parse :: "parser \<Rightarrow> 'g enumerator \<Rightarrow> 'g \<Rightarrow> string \<Rightarrow> nat \<Rightarrow> (error + row list) option" where
  "parse self E g sent top_K =
     (let words = split_ws sent; word_set = set words
      in case dfs (Suc (max_command_length self)) self E start_cell words (g, []) of
           None \<Rightarrow> None
         | Some (Inl e) \<Rightarrow> Some (Inl e)
         | Some (Inr (g', final_cells)) \<Rightarrow>
             Some (Inr (map (print_row E word_set)
                          (rank top_K (map (\<lambda>c. final_score self c words) final_cells)))))"

text \<open>\<open>parse(sent)\<close> with the default \<open>top_K=50\<close>.\<close>

definition parse_default :: "parser \<Rightarrow> 'g enumerator \<Rightarrow> 'g \<Rightarrow> string \<Rightarrow> (error + row list) option" where
  "parse_default self E g sent = parse self E g sent 50"

text \<open>
  The exit status of the interpreter when a call is the last statement of the script:
  0 when the call returns, the argument of \<open>sys.exit\<close>, and 1 for any other exception.
\<close>

fun exit_status :: "error + 'a \<Rightarrow> nat" where
  "exit_status (Inr v) = 0"
| "exit_status (Inl (SystemExit n)) = n"
| "exit_status (Inl e) = 1"

section \<open>Notions used to state the properties\<close>

text \<open>
  The terms on the chain of backpointers that ends in a cell, from the first cell of the
  chain to the cell itself.
\<close>

fun path_terms :: "cell option \<Rightarrow> string list" where
  "path_terms None = []"
| "path_terms (Some (Cell t p bp n s cw fs)) = path_terms bp @ [t]"

text \<open>The cells on the chain of backpointers that ends in a cell, the cell itself first.\<close>

fun chain_cells :: "cell option \<Rightarrow> cell list" where
  "chain_cells None = []"
| "chain_cells (Some (Cell t p bp n s cw fs)) = Cell t p bp n s cw fs # chain_cells bp"

text \<open>
  A cell whose \<open>length\<close> is what \<open>Cell.__init__\<close> computes along its whole chain:
  0 without a backpointer, one more than the backpointer's otherwise.
\<close>

fun wf_cell :: "cell \<Rightarrow> bool" where
  "wf_cell (Cell t p None n s cw fs) = (n = 0)"
| "wf_cell (Cell t p (Some b) n s cw fs) = (n = length_c b + 1 \<and> wf_cell b)"

text \<open>
  \<open>self.P2TScores[a][b]\<close> and \<open>self.T2PScores[a][b]\<close>, with \<open>None\<close> where the entry or
  the table is missing.
\<close>

definition P2T_weight :: "parser \<Rightarrow> string \<Rightarrow> string \<Rightarrow> real option" where
  "P2T_weight self a b = (case P2TScores self of None \<Rightarrow> None | Some t \<Rightarrow> table_get t a b)"

definition T2P_weight :: "parser \<Rightarrow> string \<Rightarrow> string \<Rightarrow> real option" where
  "T2P_weight self a b = (case T2PScores self of None \<Rightarrow> None | Some t \<Rightarrow> table_get t a b)"

text \<open>What \<open>genCommand\<close> writes for a term.\<close>

definition hole_marker :: "string \<Rightarrow> string \<Rightarrow> string" where
  "hole_marker hole t = (if t = hole then ''*'' else t)"

text \<open>
  The calls of a traversal. \<open>visits self E ws n c st m c' st'\<close>: the call of \<open>dfs\<close>
  with depth bound \<open>n\<close> on the cell \<open>c\<close> in state \<open>st\<close> is, or leads to, the call
  with depth bound \<open>m\<close> on the cell \<open>c'\<close> in state \<open>st'\<close>. A call leads to the call
  on a child when it has passed the tests before the loop, the loop has run through the
  tokens \<open>pre\<close> before \<open>tok\<close> without an exception, and \<open>local_score\<close> has returned.
\<close>

inductive visits :: "parser \<Rightarrow> 'g enumerator \<Rightarrow> string list \<Rightarrow> nat \<Rightarrow> cell \<Rightarrow> 'g \<times> cell list
                       \<Rightarrow> nat \<Rightarrow> cell \<Rightarrow> 'g \<times> cell list \<Rightarrow> bool"
  for self :: parser and E :: "'g enumerator" and ws :: "string list" where
  visits_here: "visits self E ws n c st n c st"
| visits_child:
    "\<lbrakk>term_c c \<noteq> EOF E; term_c c \<noteq> ''|''; length_c c \<noteq> max_command_length self;
      term_c c = START_SYMBOL \<or> allows E g (term_c c);
      g1 = (if term_c c \<noteq> START_SYMBOL then push E g (term_c c) else g);
      fc1 = (if min_command_length self < length_c c \<and> allow_eof E g then fc @ [c] else fc);
      legal_tokens E g1 = pre @ tok # post;
      dfs_for n self E c ws pre (term_c c) (g1, fc1) = Some (Inr (t', st1));
      local_score self tok ws = Inr ff;
      visits self E ws n (Cell_init tok None (Some c) ff) st1 m c' st'\<rbrakk>
     \<Longrightarrow> visits self E ws (Suc n) c (g, fc) m c' st'"

section \<open>A small grammar and phrase table\<close>

text \<open>
  Concrete inputs on which the properties are evaluated: a phrase table of two records,
  a parser with minimum length 0, maximum length 2 and penalty -1, and an enumerator
  whose state is the stack of pushed tokens. It offers \<open>ls\<close> first, and after
  \<open>ls\<close> the hole \<open>File\<close> or a pipe. The second enumerator also offers \<open>rm\<close>,
  which it then does not allow.
\<close>

definition demo_lines :: "string list" where
  "demo_lines = [''list ||| ls ||| 1 2 3 4'', ''files ||| File ||| 5 6 7 8'']"

definition demo_parser :: parser where
  "demo_parser = (snd (make_phrase_table float_digits (Parser_init 0 2) demo_lines))
                   \<lparr>redundant_word_score := - 1\<rparr>"

definition demo_enum :: "string list enumerator" where
  "demo_enum =
     \<lparr> HOLE = ''File'', EOF = ''<EOF>'',
       allows = (\<lambda>g t. t \<noteq> ''rm''),
       push = (\<lambda>g t. t # g),
       pop = tl,
       legal_tokens = (\<lambda>g. if g = [] then [''ls''] else if g = [''ls''] then [''File'', ''|''] else []),
       allow_eof = (\<lambda>g. True) \<rparr>"

definition demo_enum_rm :: "string list enumerator" where
  "demo_enum_rm = demo_enum\<lparr>legal_tokens := (\<lambda>g. if g = [] then [''ls'', ''rm''] else [])\<rparr>"

definition demo_ls :: cell where
  "demo_ls = Cell_init ''ls'' None (Some start_cell) [(''list'', 4)]"

definition demo_ls_file :: cell where
  "demo_ls_file = Cell_init ''File'' None (Some demo_ls) [(''files'', 8)]"

definition demo_rm :: cell where
  "demo_rm = Cell_init ''rm'' None (Some start_cell) []"

definition demo_pipe :: cell where
  "demo_pipe = Cell_init ''|'' None (Some demo_ls) []"

section \<open>Loading the phrase table\<close>

lemma table_get_set:
  "table_get (table_set t a b w) a' b' = (if a' = a \<and> b' = b then Some w else table_get t a' b')"
  by (auto simp: table_get_def table_set_def split: option.splits)

lemma load_lines_append:
  "load_lines pyfloat (xs @ ys) st =
     (case load_lines pyfloat xs st of
        (None, st') \<Rightarrow> load_lines pyfloat ys st'
      | (Some e, st') \<Rightarrow> (Some e, st'))"
proof (induction xs arbitrary: st)
  case Nil
  show ?case by (cases st) simp
next
  case (Cons x xs)
  show ?case by (cases st) (simp add: Cons.IH split: sum.splits prod.splits)
qed

lemma load_lines_keeps:
  assumes "load_lines pyfloat post (p2t, t2p) = (None, p2t', t2p')"
    and "\<forall>l \<in> set post. \<forall>w. read_record pyfloat l \<noteq> Inr (p, s, w)"
  shows "table_get p2t' p s = table_get p2t p s \<and> table_get t2p' s p = table_get t2p s p"
  using assms
proof (induction post arbitrary: p2t t2p)
  case Nil
  then show ?case by simp
next
  case (Cons l post)
  from Cons.prems(1) obtain a b w where r: "read_record pyfloat l = Inr (a, b, w)"
    by (auto split: sum.splits)
  with Cons.prems(2) have ne: "\<not> (a = p \<and> b = s)" by auto
  from Cons.prems(1) r have
    "load_lines pyfloat post (table_set p2t a b w, table_set t2p b a w) = (None, p2t', t2p')"
    by simp
  from Cons.IH [OF this] Cons.prems(2) ne show ?case
    by (auto simp: table_get_set)
qed

lemma read_record_four:
  assumes "split_bars (strip line) = phrase_part # snippet_part # scores_part # extra"
    and "map pyfloat (split_ws scores_part) = [Some s1, Some s2, Some s3, Some s4]"
  shows "read_record pyfloat line = Inr (strip phrase_part, strip snippet_part, s4)"
  using assms by (simp add: read_record_def)

lemma those_map_None: "(those (map f xs) = None) = (\<exists>x \<in> set xs. f x = None)"
  by (induction xs) (auto split: option.splits)

lemma those_map_length: "those (map f xs) = Some ys \<Longrightarrow> length ys = length xs"
  by (induction xs arbitrary: ys) (auto split: option.splits)

lemma read_record_fails_iff:
  "(\<exists>e. read_record pyfloat line = Inl e) =
     (length (split_bars (strip line)) < 3
      \<or> length (split_ws (split_bars (strip line) ! 2)) \<noteq> 4
      \<or> (\<exists>x \<in> set (split_ws (split_bars (strip line) ! 2)). pyfloat x = None))"
proof (cases "length (split_bars (strip line)) < 3")
  case True
  then show ?thesis by (auto simp: read_record_def Let_def)
next
  case False
  let ?toks = "split_ws (split_bars (strip line) ! 2)"
  show ?thesis
  proof (cases "those (map pyfloat ?toks)")
    case None
    then have "\<exists>x \<in> set ?toks. pyfloat x = None" by (simp add: those_map_None)
    moreover from None False have "read_record pyfloat line = Inl ValueError"
      by (simp add: read_record_def Let_def)
    ultimately show ?thesis by blast
  next
    case (Some ys)
    then have len: "length ys = length ?toks" by (rule those_map_length)
    from Some have all: "\<not> (\<exists>x \<in> set ?toks. pyfloat x = None)"
      using those_map_None [of pyfloat ?toks] by simp
    have "(\<exists>e. read_record pyfloat line = Inl e) = (length ys \<noteq> 4)"
      using False Some
      by (auto simp: read_record_def Let_def split: list.splits)
    with len all show ?thesis using False by auto
  qed
qed

lemma read_record_error_kind:
  "read_record pyfloat line = Inl e \<Longrightarrow> e = IndexError \<or> e = ValueError"
  by (auto simp: read_record_def Let_def split: if_splits option.splits list.splits)

lemma load_lines_fails_iff:
  "(fst (load_lines pyfloat lines st) \<noteq> None) = (\<exists>line \<in> set lines. \<exists>e. read_record pyfloat line = Inl e)"
proof (induction lines arbitrary: st)
  case Nil
  show ?case by (cases st) simp
next
  case (Cons l lines)
  show ?case
  proof (cases "read_record pyfloat l")
    case (Inl e)
    then show ?thesis by (cases st) auto
  next
    case (Inr r)
    then show ?thesis using Cons.IH by (cases st; cases r) auto
  qed
qed

lemma load_lines_failure_prefix:
  "load_lines pyfloat lines st = (Some e, st') \<Longrightarrow>
     \<exists>pre bad post. lines = pre @ bad # post \<and> read_record pyfloat bad = Inl e
        \<and> load_lines pyfloat pre st = (None, st')"
proof (induction lines arbitrary: st)
  case Nil
  then show ?case by (cases st) simp
next
  case (Cons l lines)
  obtain p2t t2p where st: "st = (p2t, t2p)" by (cases st)
  show ?case
  proof (cases "read_record pyfloat l")
    case (Inl e')
    with Cons.prems st have "e' = e" "st' = st" by auto
    with Inl st have "l # lines = [] @ l # lines \<and> read_record pyfloat l = Inl e
        \<and> load_lines pyfloat [] st = (None, st')" by simp
    then show ?thesis by blast
  next
    case (Inr r)
    obtain a b w where r: "r = (a, b, w)" by (cases r)
    let ?st1 = "(table_set p2t a b w, table_set t2p b a w)"
    from Cons.prems st Inr r have "load_lines pyfloat lines ?st1 = (Some e, st')" by simp
    from Cons.IH [OF this] obtain pre bad post where
      "lines = pre @ bad # post" "read_record pyfloat bad = Inl e"
      "load_lines pyfloat pre ?st1 = (None, st')" by blast
    with st Inr r have "l # lines = (l # pre) @ bad # post \<and> read_record pyfloat bad = Inl e
        \<and> load_lines pyfloat (l # pre) st = (None, st')" by simp
    then show ?thesis by blast
  qed
qed

section \<open>Chains of cells\<close>

lemma path_terms_Some: "path_terms (Some c) = path_terms (backpointer c) @ [term_c c]"
  by (cases c) simp

lemma chain_cells_Some: "chain_cells (Some c) = c # chain_cells (backpointer c)"
  by (cases c) simp

text \<open>
  \<open>cnl_words\<close> is the union of the \<open>covered_words\<close> of the cells on the chain, and the
  \<open>covered_words\<close> of a new cell are the keys of its fired features.
\<close>

lemma cnl_words_loop_union:
  "cnl_words_loop bp covered = covered \<union> (\<Union>b \<in> set (chain_cells bp). covered_words b)"
  by (induction bp covered rule: cnl_words_loop.induct) auto

lemma cnl_words_chain: "cnl_words c = (\<Union>b \<in> set (chain_cells (Some c)). covered_words b)"
  by (simp add: cnl_words_def cnl_words_loop_union chain_cells_Some)

lemma covered_words_Cell_init: "covered_words (Cell_init t p bp ff) = set (map fst ff)"
  by (simp add: Cell_init_def dict_keys_def)

lemma wf_cell_child: "wf_cell c \<Longrightarrow> wf_cell (Cell_init t p (Some c) ff)"
  by (simp add: Cell_init_def)

lemma wf_cell_root: "wf_cell (Cell_init t p None ff)"
  by (simp add: Cell_init_def)


lemma genCommand_loop_path:
  "genCommand_loop hole bp cmd = map (hole_marker hole) (path_terms bp) @ cmd"
  by (induction hole bp cmd rule: genCommand_loop.induct) (simp_all add: hole_marker_def)

lemma genCommand_path:
  "genCommand hole c = join_space (map (hole_marker hole) (drop 1 (path_terms (Some c))))"
proof -
  have "genCommand_loop hole (backpointer c) [if term_c c = hole then ''*'' else term_c c]
          = map (hole_marker hole) (path_terms (Some c))"
    by (simp add: genCommand_loop_path path_terms_Some hole_marker_def)
  then show ?thesis by (simp only: genCommand_def drop_map)
qed

section \<open>One call of \<open>dfs\<close>\<close>

text \<open>
  The second equation of \<open>dfs\<close>, case by case. It is taken out of the simplifier, which
  would unfold it at every call.
\<close>

lemma dfs_skip:
  "term_c c = EOF E \<or> term_c c = ''|'' \<Longrightarrow> dfs (Suc n) self E c ws (g, fc) = Some (Inr (g, fc))"
  by (auto simp: Let_def)

lemma dfs_at_max:
  "term_c c \<noteq> EOF E \<Longrightarrow> term_c c \<noteq> ''|'' \<Longrightarrow> length_c c = max_command_length self \<Longrightarrow>
   dfs (Suc n) self E c ws (g, fc) =
     Some (Inr (g, if min_command_length self < length_c c \<and> allow_eof E g then fc @ [c] else fc))"
  by (simp add: Let_def)

lemma dfs_rejected:
  "term_c c \<noteq> EOF E \<Longrightarrow> term_c c \<noteq> ''|'' \<Longrightarrow> length_c c \<noteq> max_command_length self \<Longrightarrow>
   term_c c \<noteq> START_SYMBOL \<Longrightarrow> \<not> allows E g (term_c c) \<Longrightarrow>
   dfs (Suc n) self E c ws (g, fc) = Some (Inl (SystemExit 1))"
  by (simp add: Let_def)

lemma dfs_explore:
  "term_c c \<noteq> EOF E \<Longrightarrow> term_c c \<noteq> ''|'' \<Longrightarrow> length_c c \<noteq> max_command_length self \<Longrightarrow>
   term_c c = START_SYMBOL \<or> allows E g (term_c c) \<Longrightarrow>
   dfs (Suc n) self E c ws (g, fc) =
     (case dfs_for n self E c ws
             (legal_tokens E (if term_c c \<noteq> START_SYMBOL then push E g (term_c c) else g))
             (term_c c)
             (if term_c c \<noteq> START_SYMBOL then push E g (term_c c) else g,
              if min_command_length self < length_c c \<and> allow_eof E g then fc @ [c] else fc) of
        None \<Rightarrow> None
      | Some (Inl e) \<Rightarrow> Some (Inl e)
      | Some (Inr (t', g2, fc2)) \<Rightarrow>
          Some (Inr (if t' \<noteq> START_SYMBOL then pop E g2 else g2, fc2)))"
  by (auto simp: Let_def)

lemmas dfs_Suc = dfs.simps(2)

declare dfs.simps(2) [simp del]

lemma dfs_at_max_any:
  "length_c c = max_command_length self \<Longrightarrow>
   dfs (Suc k) self E c ws (gc, fc) =
     Some (Inr (gc, if term_c c \<noteq> EOF E \<and> term_c c \<noteq> ''|''
                       \<and> min_command_length self < length_c c \<and> allow_eof E gc
                    then fc @ [c] else fc))"
  by (cases "term_c c = EOF E \<or> term_c c = ''|''") (auto simp: dfs_skip dfs_at_max)

section \<open>What a traversal records\<close>

lemma dfs_for_records:
  assumes IH: "\<And>ch g fc g' fc'. I ch \<Longrightarrow> dfs n self E ch ws (g, fc) = Some (Inr (g', fc'))
                 \<Longrightarrow> \<exists>new. fc' = fc @ new \<and> (\<forall>r \<in> set new. R r)"
    and kids: "\<And>tok ff. I (Cell_init tok None (Some c) ff)"
  shows "dfs_for n self E c ws toks t (g, fc) = Some (Inr (t', g', fc'))
           \<Longrightarrow> \<exists>new. fc' = fc @ new \<and> (\<forall>r \<in> set new. R r)"
proof (induction toks arbitrary: t g fc)
  case Nil
  then show ?case by simp
next
  case (Cons tok toks)
  from Cons.prems obtain ff g1 fc1 where
    ls: "local_score self tok ws = Inr ff"
    and d: "dfs n self E (Cell_init tok None (Some c) ff) ws (g, fc) = Some (Inr (g1, fc1))"
    and rest: "dfs_for n self E c ws toks tok (g1, fc1) = Some (Inr (t', g', fc'))"
    by (auto split: sum.splits option.splits)
  from IH [OF kids d] obtain new1 where n1: "fc1 = fc @ new1" "\<forall>r \<in> set new1. R r" by blast
  from Cons.IH [OF rest] obtain new2 where n2: "fc' = fc1 @ new2" "\<forall>r \<in> set new2. R r" by blast
  from n1 n2 have "fc' = fc @ (new1 @ new2) \<and> (\<forall>r \<in> set (new1 @ new2). R r)" by auto
  then show ?case by blast
qed

lemma dfs_records:
  assumes step: "\<And>c tok ff. I c \<Longrightarrow> term_c c \<noteq> EOF E \<Longrightarrow> term_c c \<noteq> ''|''
                   \<Longrightarrow> length_c c \<noteq> max_command_length self
                   \<Longrightarrow> I (Cell_init tok None (Some c) ff)"
  shows "I c \<Longrightarrow> dfs n self E c ws (g, fc) = Some (Inr (g', fc'))
           \<Longrightarrow> \<exists>new. fc' = fc @ new \<and>
                 (\<forall>r \<in> set new. I r \<and> term_c r \<noteq> EOF E \<and> term_c r \<noteq> ''|''
                                  \<and> min_command_length self < length_c r)"
proof (induction n arbitrary: c g fc g' fc')
  case 0
  then show ?case by simp
next
  case (Suc n)
  let ?R = "\<lambda>r. I r \<and> term_c r \<noteq> EOF E \<and> term_c r \<noteq> ''|'' \<and> min_command_length self < length_c r"
  show ?case
  proof (cases "term_c c = EOF E \<or> term_c c = ''|''")
    case True
    with Suc.prems(2) have "fc' = fc @ []" by (simp add: dfs_skip)
    then show ?thesis by force
  next
    case False
    define fc1 where "fc1 = (if min_command_length self < length_c c \<and> allow_eof E g
                             then fc @ [c] else fc)"
    have fc1: "\<exists>new. fc1 = fc @ new \<and> (\<forall>r \<in> set new. ?R r)"
    proof (cases "min_command_length self < length_c c \<and> allow_eof E g")
      case True
      with False Suc.prems(1) have "fc1 = fc @ [c] \<and> (\<forall>r \<in> set [c]. ?R r)"
        by (simp add: fc1_def)
      then show ?thesis by blast
    next
      case False
      then have "fc1 = fc @ [] \<and> (\<forall>r \<in> set []. ?R r)" by (simp add: fc1_def)
      then show ?thesis by blast
    qed
    then obtain new1 where n1: "fc1 = fc @ new1" "\<forall>r \<in> set new1. ?R r" by blast
    show ?thesis
    proof (cases "length_c c = max_command_length self")
      case True
      with False Suc.prems(2) have "fc' = fc1"
        by (auto simp: fc1_def dfs_at_max)
      with n1 show ?thesis by blast
    next
      case notmax: False
      define g1 where "g1 = (if term_c c \<noteq> START_SYMBOL then push E g (term_c c) else g)"
      have ok: "term_c c = START_SYMBOL \<or> allows E g (term_c c)"
      proof (rule ccontr)
        assume "\<not> (term_c c = START_SYMBOL \<or> allows E g (term_c c))"
        with False notmax have "dfs (Suc n) self E c ws (g, fc) = Some (Inl (SystemExit 1))"
          by (simp add: dfs_rejected)
        with Suc.prems(2) show False by simp
      qed
      have ne: "term_c c \<noteq> EOF E" "term_c c \<noteq> ''|''" using False by simp_all
      from Suc.prems(2) obtain t' g2 where
        loop: "dfs_for n self E c ws (legal_tokens E g1) (term_c c) (g1, fc1) = Some (Inr (t', g2, fc'))"
        unfolding dfs_explore [OF ne notmax ok] fc1_def g1_def
        by (auto split: option.splits sum.splits)
      have kids: "\<And>tok ff. I (Cell_init tok None (Some c) ff)"
        using step Suc.prems(1) False notmax by blast
      have "\<exists>new. fc' = fc1 @ new \<and> (\<forall>r \<in> set new. ?R r)"
      proof (rule dfs_for_records [where I = I and R = ?R and c = c, OF _ _ loop])
        fix ch g fc g' fc'
        assume "I ch" "dfs n self E ch ws (g, fc) = Some (Inr (g', fc'))"
        then show "\<exists>new. fc' = fc @ new \<and> (\<forall>r \<in> set new. ?R r)" by (rule Suc.IH)
      next
        fix tok ff
        show "I (Cell_init tok None (Some c) ff)" by (rule kids)
      qed
      then obtain new2 where n2: "fc' = fc1 @ new2" "\<forall>r \<in> set new2. ?R r" by blast
      from n1 n2 have "fc' = fc @ (new1 @ new2) \<and> (\<forall>r \<in> set (new1 @ new2). ?R r)" by auto
      then show ?thesis by blast
    qed
  qed
qed

section \<open>The loop, the depth bound and the calls of a traversal\<close>

lemma dfs_for_append:
  "dfs_for n self E c ws (pre @ rest) t st =
     (case dfs_for n self E c ws pre t st of
        None \<Rightarrow> None
      | Some (Inl e) \<Rightarrow> Some (Inl e)
      | Some (Inr (t', st')) \<Rightarrow> dfs_for n self E c ws rest t' st')"
  by (induction pre arbitrary: t st) (auto split: sum.splits option.splits)

lemma dfs_for_total:
  assumes "\<And>tok ff st. dfs n self E (Cell_init tok None (Some c) ff) ws st \<noteq> None"
  shows "dfs_for n self E c ws toks t st \<noteq> None"
proof (induction toks arbitrary: t st)
  case Nil
  show ?case by simp
next
  case (Cons tok toks)
  show ?case
  proof (cases "local_score self tok ws")
    case (Inl e)
    then show ?thesis by simp
  next
    case (Inr ff)
    from assms [of tok ff st] obtain r where
      r: "dfs n self E (Cell_init tok None (Some c) ff) ws st = Some r" by blast
    show ?thesis
    proof (cases r)
      case (Inl e)
      with Inr r show ?thesis by simp
    next
      case (Inr st')
      with \<open>local_score self tok ws = Inr ff\<close> r Cons.IH [of tok st'] show ?thesis by simp
    qed
  qed
qed

lemma dfs_total:
  "length_c c \<le> max_command_length self \<Longrightarrow> max_command_length self - length_c c < n
     \<Longrightarrow> dfs n self E c ws st \<noteq> None"
proof (induction n arbitrary: c st)
  case 0
  then show ?case by simp
next
  case (Suc n)
  obtain g fc where st: "st = (g, fc)" by (cases st)
  show ?case
  proof (cases "term_c c = EOF E \<or> term_c c = ''|''")
    case True
    then show ?thesis by (simp add: st dfs_skip)
  next
    case False
    then have ne: "term_c c \<noteq> EOF E" "term_c c \<noteq> ''|''" by simp_all
    show ?thesis
    proof (cases "length_c c = max_command_length self")
      case True
      with ne show ?thesis by (simp add: st dfs_at_max)
    next
      case notmax: False
      show ?thesis
      proof (cases "term_c c = START_SYMBOL \<or> allows E g (term_c c)")
        case False
        with ne notmax show ?thesis by (simp add: st dfs_rejected)
      next
        case True
        have "\<And>tok ff st. dfs n self E (Cell_init tok None (Some c) ff) ws st \<noteq> None"
        proof -
          fix tok ff st'
          have l: "length_c (Cell_init tok None (Some c) ff) = length_c c + 1"
            by (simp add: Cell_init_def)
          show "dfs n self E (Cell_init tok None (Some c) ff) ws st' \<noteq> None"
            using Suc.prems notmax by (intro Suc.IH) (simp_all add: l)
        qed
        then have "\<And>toks t st. dfs_for n self E c ws toks t st \<noteq> None"
          by (rule dfs_for_total)
        then obtain r where r: "dfs_for n self E c ws
             (legal_tokens E (if term_c c \<noteq> START_SYMBOL then push E g (term_c c) else g))
             (term_c c)
             (if term_c c \<noteq> START_SYMBOL then push E g (term_c c) else g,
              if min_command_length self < length_c c \<and> allow_eof E g then fc @ [c] else fc) = Some r"
          by blast
        show ?thesis
          unfolding st dfs_explore [OF ne notmax True] r
          by (cases r) (simp_all split: prod.splits)
      qed
    qed
  qed
qed

lemma dfs_for_same:
  assumes "\<And>ch st. dfs n self' E ch ws st = dfs n self E ch ws st"
    and "\<And>tok. local_score self' tok ws = local_score self tok ws"
  shows "dfs_for n self' E c ws toks t st = dfs_for n self E c ws toks t st"
  by (induction toks arbitrary: t st) (simp_all add: assms split: sum.splits option.splits)

lemma local_score_ungrounded:
  "local_score (self\<lparr>ungrounded_token_score := a\<rparr>) tok ws = local_score self tok ws"
  by (simp add: local_score_def)

lemma dfs_ungrounded:
  "dfs n (self\<lparr>ungrounded_token_score := a\<rparr>) E c ws st = dfs n self E c ws st"
proof (induction n arbitrary: c st)
  case 0
  show ?case by (cases st) simp
next
  case (Suc n)
  obtain g fc where st: "st = (g, fc)" by (cases st)
  have "\<And>toks t st. dfs_for n (self\<lparr>ungrounded_token_score := a\<rparr>) E c ws toks t st
          = dfs_for n self E c ws toks t st"
    by (rule dfs_for_same) (simp_all add: Suc.IH local_score_ungrounded)
  then show ?case by (simp add: st dfs_Suc Let_def)
qed

lemma visits_rejected:
  assumes "visits self E ws n c st k c' st'"
    and "k = Suc m" and "st' = (g', fc')"
    and "term_c c' \<noteq> EOF E" "term_c c' \<noteq> ''|''" "length_c c' \<noteq> max_command_length self"
    and "term_c c' \<noteq> START_SYMBOL" "\<not> allows E g' (term_c c')"
  shows "dfs n self E c ws st = Some (Inl (SystemExit 1))"
  using assms
proof (induction rule: visits.induct)
  case (visits_here n c st)
  then show ?case by (simp add: dfs_rejected)
next
  case (visits_child c g g1 fc1 fc pre tok post n t' st1 ff k c' st')
  have child: "dfs n self E (Cell_init tok None (Some c) ff) ws st1 = Some (Inl (SystemExit 1))"
    using visits_child.IH visits_child.prems by simp
  have "dfs_for n self E c ws (pre @ tok # post) (term_c c) (g1, fc1) = Some (Inl (SystemExit 1))"
    by (simp add: dfs_for_append visits_child.hyps(8,9) child)
  then show ?case
    unfolding dfs_explore [OF visits_child.hyps(1-4)]
    using visits_child.hyps(5-7) by simp
qed

lemma visits_trans:
  assumes "visits self E ws n c st k c' st'" and "visits self E ws k c' st' m c'' st''"
  shows "visits self E ws n c st m c'' st''"
  using assms
proof (induction rule: visits.induct)
  case (visits_here n c st)
  then show ?case by simp
next
  case (visits_child c g g1 fc1 fc pre tok post n t' st1 ff k c' st')
  from visits_child.IH [OF visits_child.prems]
  show ?case by (rule visits.visits_child [OF visits_child.hyps(1-9)])
qed

lemma visits_backpointer:
  assumes "visits self E ws n c st k c' st'"
  shows "(k = n \<and> c' = c \<and> st' = st) \<or>
         (k < n \<and> (\<exists>b. backpointer c' = Some b \<and> parent c' = None \<and> term_c b \<noteq> EOF E \<and> term_c b \<noteq> ''|''
                \<and> length_c b \<noteq> max_command_length self))"
  using assms
proof (induction rule: visits.induct)
  case (visits_here n c st)
  then show ?case by simp
next
  case (visits_child c g g1 fc1 fc pre tok post n t' st1 ff k c' st')
  from visits_child.IH show ?case
  proof
    assume "k = n \<and> c' = Cell_init tok None (Some c) ff \<and> st' = st1"
    with visits_child.hyps(1-3) show ?thesis by (simp add: Cell_init_def)
  next
    assume "k < n \<and> (\<exists>b. backpointer c' = Some b \<and> parent c' = None \<and> term_c b \<noteq> EOF E \<and> term_c b \<noteq> ''|''
                \<and> length_c b \<noteq> max_command_length self)"
    then show ?thesis by auto
  qed
qed

lemma length_c_child: "length_c (Cell_init tok p (Some c) ff) = length_c c + 1"
  by (simp add: Cell_init_def)

lemma dfs_for_prefix_ok:
  assumes "dfs_for n self E c ws (pre @ tok # post) t st = Some (Inr r)"
  shows "\<exists>t' st1 ff st2. dfs_for n self E c ws pre t st = Some (Inr (t', st1))
            \<and> local_score self tok ws = Inr ff
            \<and> dfs n self E (Cell_init tok None (Some c) ff) ws st1 = Some (Inr st2)"
  using assms
  by (auto simp: dfs_for_append split: option.splits sum.splits)

lemma dfs_returns_loop:
  assumes ret: "dfs (Suc n) self E c ws (g, fc) = Some (Inr r)"
    and ne: "term_c c \<noteq> EOF E" "term_c c \<noteq> ''|''"
    and notmax: "length_c c \<noteq> max_command_length self"
  shows "(term_c c = START_SYMBOL \<or> allows E g (term_c c)) \<and>
         (\<exists>r'. dfs_for n self E c ws
             (legal_tokens E (if term_c c \<noteq> START_SYMBOL then push E g (term_c c) else g))
             (term_c c)
             (if term_c c \<noteq> START_SYMBOL then push E g (term_c c) else g,
              if min_command_length self < length_c c \<and> allow_eof E g then fc @ [c] else fc)
            = Some (Inr r'))"
proof -
  have ok: "term_c c = START_SYMBOL \<or> allows E g (term_c c)"
  proof (rule ccontr)
    assume "\<not> (term_c c = START_SYMBOL \<or> allows E g (term_c c))"
    with ne notmax have "dfs (Suc n) self E c ws (g, fc) = Some (Inl (SystemExit 1))"
      by (simp add: dfs_rejected)
    with ret show False by simp
  qed
  from ret show ?thesis
    unfolding dfs_explore [OF ne notmax ok] using ok
    by (auto split: option.splits sum.splits)
qed

lemma visits_returns:
  assumes "visits self E ws n c st k c' st'"
    and "dfs n self E c ws st = Some (Inr r)"
  shows "\<exists>r'. dfs k self E c' ws st' = Some (Inr r')"
  using assms
proof (induction arbitrary: r rule: visits.induct)
  case (visits_here n c st)
  then show ?case by blast
next
  case (visits_child c g g1 fc1 fc pre tok post n t' st1 ff k c' st')
  from dfs_returns_loop [OF visits_child.prems visits_child.hyps(1-3)]
  obtain r' where "dfs_for n self E c ws (pre @ tok # post) (term_c c) (g1, fc1) = Some (Inr r')"
    using visits_child.hyps(5-7) by auto
  from dfs_for_prefix_ok [OF this] visits_child.hyps(8,9)
  obtain st2 where "dfs n self E (Cell_init tok None (Some c) ff) ws st1 = Some (Inr st2)"
    by auto
  from visits_child.IH [OF this] show ?case .
qed

lemma visits_children:
  assumes v: "visits self E ws n c0 st0 (Suc m) c (g, fc)"
    and ret: "dfs n self E c0 ws st0 = Some (Inr r)"
    and ne: "term_c c \<noteq> EOF E" "term_c c \<noteq> ''|''"
    and notmax: "length_c c \<noteq> max_command_length self"
    and tok: "tok \<in> set (legal_tokens E (if term_c c \<noteq> START_SYMBOL then push E g (term_c c) else g))"
  shows "\<exists>ff st1. local_score self tok ws = Inr ff
           \<and> visits self E ws n c0 st0 m (Cell_init tok None (Some c) ff) st1"
proof -
  let ?g1 = "if term_c c \<noteq> START_SYMBOL then push E g (term_c c) else g"
  let ?fc1 = "if min_command_length self < length_c c \<and> allow_eof E g then fc @ [c] else fc"
  from visits_returns [OF v ret] obtain r' where
    "dfs (Suc m) self E c ws (g, fc) = Some (Inr r')" by blast
  from dfs_returns_loop [OF this ne notmax] obtain r'' where
    ok: "term_c c = START_SYMBOL \<or> allows E g (term_c c)"
    and loop: "dfs_for m self E c ws (legal_tokens E ?g1) (term_c c) (?g1, ?fc1) = Some (Inr r'')"
    by blast
  from tok obtain pre post where split: "legal_tokens E ?g1 = pre @ tok # post"
    by (meson split_list)
  from dfs_for_prefix_ok [OF loop [unfolded split]] obtain t' st1 ff where
    pre: "dfs_for m self E c ws pre (term_c c) (?g1, ?fc1) = Some (Inr (t', st1))"
    and ls: "local_score self tok ws = Inr ff" by blast
  have "visits self E ws (Suc m) c (g, fc) m (Cell_init tok None (Some c) ff) st1"
    by (rule visits_child [OF ne notmax ok refl refl split pre ls visits_here])
  from visits_trans [OF v this] ls show ?thesis by blast
qed

lemma visits_length:
  assumes "visits self E ws n c st k c' st'" and "length_c c \<le> max_command_length self"
  shows "length_c c' \<le> max_command_length self"
  using assms
proof (induction rule: visits.induct)
  case (visits_here n c st)
  then show ?case by simp
next
  case (visits_child c g g1 fc1 fc pre tok post n t' st1 ff k c' st')
  from visits_child.prems visits_child.hyps(3)
  have "length_c (Cell_init tok None (Some c) ff) \<le> max_command_length self"
    by (simp add: length_c_child)
  then show ?case by (rule visits_child.IH)
qed

lemma start_cell_simps:
  "length_c start_cell = 0" "backpointer start_cell = None" "term_c start_cell = START_SYMBOL"
  "score start_cell = 0" "wf_cell start_cell"
  by (simp_all add: start_cell_def Cell_init_def)

text \<open>
  The depth bound of a call and the length of its cell add up to the same number along a
  traversal, so with the bound that \<open>parse\<close> gives no call has the bound 0. Every cell
  that a traversal from the start cell records has the length that the constructor
  computes.
\<close>

lemma visits_depth:
  assumes "visits self E ws n c st m c' st'"
  shows "m + length_c c' = n + length_c c"
  using assms
  by (induction rule: visits.induct) (simp_all add: length_c_child)

lemma visits_bound_positive:
  assumes "visits self E ws (Suc (max_command_length self)) start_cell st m c st'"
  shows "\<exists>k. m = Suc k"
proof -
  from visits_depth [OF assms] have "m + length_c c = Suc (max_command_length self)"
    by (simp add: start_cell_simps)
  moreover from visits_length [OF assms] have "length_c c \<le> max_command_length self"
    by (simp add: start_cell_simps)
  ultimately have "0 < m" by simp
  then show ?thesis by (cases m) simp_all
qed

lemma dfs_recorded_wf:
  assumes "dfs n self E start_cell ws (g, []) = Some (Inr (g', fc))"
  shows "\<forall>r \<in> set fc. wf_cell r"
proof -
  have step: "\<And>c tok ff. wf_cell c \<Longrightarrow> term_c c \<noteq> EOF E \<Longrightarrow> term_c c \<noteq> ''|''
                \<Longrightarrow> length_c c \<noteq> max_command_length self
                \<Longrightarrow> wf_cell (Cell_init tok None (Some c) ff)"
    by (rule wf_cell_child)
  have "wf_cell start_cell" by (simp add: start_cell_simps)
  from dfs_records [where I = wf_cell, OF step this assms]
  show ?thesis by auto
qed

section \<open>Ranking and \<open>parse\<close>\<close>

lemma rank_split:
  "\<exists>rest. mset (rank k xs @ rest) = mset xs
       \<and> sorted_wrt (\<lambda>a b. score b \<le> score a) (rank k xs @ rest)
       \<and> (length xs \<le> k \<longrightarrow> rest = [])"
proof -
  let ?s = "sort_key (\<lambda>x. - score x) xs"
  have "sorted (map (\<lambda>x. - score x) ?s)" by (rule sorted_sort_key)
  then have "sorted_wrt (\<lambda>a b. score b \<le> score a) ?s"
    by (simp add: sorted_map)
  moreover have "mset ?s = mset xs" by simp
  moreover have "rank k xs @ drop k ?s = ?s" by (simp add: rank_def)
  moreover have "length xs \<le> k \<longrightarrow> drop k ?s = []" by simp
  ultimately show ?thesis by metis
qed

lemma length_rank: "length (rank k xs) = min k (length xs)"
  by (simp add: rank_def)

lemma set_rank: "set (rank k xs) \<subseteq> set xs"
proof -
  have "set (take k (sort_key (\<lambda>x. - score x) xs)) \<subseteq> set (sort_key (\<lambda>x. - score x) xs)"
    by (rule set_take_subset)
  then show ?thesis by (simp add: rank_def)
qed

lemma final_score_fields:
  "term_c (final_score self c ws) = term_c c"
  "backpointer (final_score self c ws) = backpointer c"
  "length_c (final_score self c ws) = length_c c"
  "covered_words (final_score self c ws) = covered_words c"
  "features (final_score self c ws) = features c"
  "score (final_score self c ws)
     = score c + redundant_word_score self * real (card (set ws - cnl_words c))"
  by (simp_all add: final_score_def)

lemma cnl_words_final_score: "cnl_words (final_score self c ws) = cnl_words c"
  by (simp add: cnl_words_def final_score_fields)

lemma print_row_final_score:
  "print_row E W (final_score self c ws)
     = (print_row E W c)\<lparr>row_score :=
          score c + redundant_word_score self * real (card (set ws - cnl_words c))\<rparr>"
  by (simp add: print_row_def final_score_fields genCommand_def cnl_words_def featureSet_def)

lemma parse_of_dfs:
  "dfs (Suc (max_command_length self)) self E start_cell (split_ws sent) (g, []) = Some (Inr (g', fc))
   \<Longrightarrow> parse self E g sent k =
         Some (Inr (map (print_row E (set (split_ws sent)))
                      (rank k (map (\<lambda>c. final_score self c (split_ws sent)) fc))))"
  by (simp add: parse_def Let_def)

lemma parse_Inr_dfs:
  assumes "parse self E g sent k = Some (Inr rows)"
  shows "\<exists>g' fc. dfs (Suc (max_command_length self)) self E start_cell (split_ws sent) (g, [])
                    = Some (Inr (g', fc))
            \<and> rows = map (print_row E (set (split_ws sent)))
                        (rank k (map (\<lambda>c. final_score self c (split_ws sent)) fc))"
  using assms by (auto simp: parse_def Let_def split: option.splits sum.splits)

lemma parse_raises:
  "dfs (Suc (max_command_length self)) self E start_cell (split_ws sent) (g, []) = Some (Inl e)
   \<Longrightarrow> parse self E g sent k = Some (Inl e)"
  by (simp add: parse_def Let_def)

lemma parse_returns: "parse self E g sent k \<noteq> None"
proof -
  have "dfs (Suc (max_command_length self)) self E start_cell (split_ws sent) (g, []) \<noteq> None"
    by (rule dfs_total) (simp_all add: start_cell_simps)
  then show ?thesis
    by (auto simp: parse_def Let_def split: option.splits sum.splits)
qed

lemma dfs_recorded_paths:
  assumes "dfs n self E start_cell ws (g, []) = Some (Inr (g', fc))"
  shows "\<forall>r \<in> set fc. \<forall>t \<in> set (path_terms (Some r)). t \<noteq> EOF E \<and> t \<noteq> ''|''"
proof -
  let ?I = "\<lambda>c. \<forall>t \<in> set (path_terms (backpointer c)). t \<noteq> EOF E \<and> t \<noteq> ''|''"
  have step: "\<And>c tok ff. ?I c \<Longrightarrow> term_c c \<noteq> EOF E \<Longrightarrow> term_c c \<noteq> ''|''
                \<Longrightarrow> length_c c \<noteq> max_command_length self
                \<Longrightarrow> ?I (Cell_init tok None (Some c) ff)"
    by (auto simp: Cell_init_def path_terms_Some)
  have "?I start_cell" by (simp add: start_cell_simps)
  from dfs_records [where I = ?I, OF step this assms]
  show ?thesis by (auto simp: path_terms_Some)
qed

section \<open>The small grammar, evaluated\<close>

lemma demo_table_loaded:
  "make_phrase_table float_digits (Parser_init 2 3)
     ([] @ ''copy file ||| cp ||| 1 2 3 4'' # [''move ||| mv ||| 5 6 7 8''])
   = (None, snd (make_phrase_table float_digits (Parser_init 2 3)
                  [''copy file ||| cp ||| 1 2 3 4'', ''move ||| mv ||| 5 6 7 8'']))"
proof -
  have "fst (make_phrase_table float_digits (Parser_init 2 3)
               [''copy file ||| cp ||| 1 2 3 4'', ''move ||| mv ||| 5 6 7 8'']) = None"
    by code_simp
  then show ?thesis by (simp add: prod_eq_iff)
qed

lemma demo_dfs:
  "dfs (Suc (max_command_length demo_parser)) demo_parser demo_enum start_cell
      (split_ws ''list files'') ([], []) = Some (Inr ([], [demo_ls, demo_ls_file]))"
  by code_simp

lemma demo_max: "max_command_length demo_parser = Suc (Suc 0)"
  by code_simp

lemma demo_dfs_traced:
  "dfs (Suc (max_command_length demo_parser)) demo_parser (traced demo_enum) start_cell
      (split_ws ''list files'') (([], []), [])
   = Some (Inr (([], [Push ''ls'', Pop, Pop]), [demo_ls, demo_ls_file]))"
  by code_simp

lemma demo_cnl: "(\<Union>b \<in> set (chain_cells (Some demo_ls_file)). covered_words b) = {''list'', ''files''}"
  by code_simp

lemma demo_cnl2: "(\<Union>b \<in> set (chain_cells (Some demo_ls)). covered_words b) = {''list''}"
  by code_simp

section \<open>The claims\<close>

subsection \<open>C1: the weight that \<open>make_phrase_table\<close> stores\<close>

text \<open>
  C1, as amended. When \<open>make_phrase_table\<close> has read all lines without an exception, take
  a line whose text splits at \<open>|||\<close> into a phrase part, a snippet part, a score part and
  possibly more parts, and whose score part holds four floats \<open>s1 s2 s3 s4\<close>. If no later
  line has the same stripped phrase and snippet, then both \<open>P2TScores[phrase][snippet]\<close>
  and \<open>T2PScores[snippet][phrase]\<close> hold \<open>s4\<close>, the fourth float, which the code names
  \<open>lex_nl_cmd\<close>. A later line with the same pair overwrites the entry.
\<close>

theorem make_phrase_table_stores_fourth:
  assumes load: "make_phrase_table pyfloat self (pre @ line # post) = (None, self')"
    and parts: "split_bars (strip line) = phrase_part # snippet_part # scores_part # extra"
    and floats: "map pyfloat (split_ws scores_part) = [Some s1, Some s2, Some s3, Some s4]"
    and last: "\<forall>l \<in> set post. \<forall>w. read_record pyfloat l \<noteq> Inr (strip phrase_part, strip snippet_part, w)"
  shows "P2T_weight self' (strip phrase_part) (strip snippet_part) = Some s4
       \<and> T2P_weight self' (strip snippet_part) (strip phrase_part) = Some s4"
proof -
  obtain r p2t t2p where ll: "load_lines pyfloat (pre @ line # post) (Map.empty, Map.empty) = (r, p2t, t2p)"
    by (metis prod_cases3)
  with load have r: "r = None" and self': "self' = self\<lparr>P2TScores := Some p2t, T2PScores := Some t2p\<rparr>"
    by (auto simp: make_phrase_table_def)
  obtain r1 a1 b1 where l1: "load_lines pyfloat pre (Map.empty, Map.empty) = (r1, a1, b1)"
    by (metis prod_cases3)
  from ll r l1 have r1: "r1 = None"
    and l2: "load_lines pyfloat (line # post) (a1, b1) = (None, p2t, t2p)"
    by (auto simp: load_lines_append split: option.splits)
  let ?p = "strip phrase_part" and ?s = "strip snippet_part"
  from l2 read_record_four [OF parts floats]
  have "load_lines pyfloat post (table_set a1 ?p ?s s4, table_set b1 ?s ?p s4) = (None, p2t, t2p)"
    by simp
  from load_lines_keeps [OF this last]
  have "table_get p2t ?p ?s = Some s4 \<and> table_get t2p ?s ?p = Some s4"
    by (simp add: table_get_set)
  with self' show ?thesis by (simp add: P2T_weight_def T2P_weight_def)
qed

text \<open>The theorem at a table of two records.\<close>

theorem make_phrase_table_stores_fourth_witness:
  "split_bars (strip ''copy file ||| cp ||| 1 2 3 4'') = [''copy file '', '' cp '', '' 1 2 3 4'']
   \<and> map float_digits (split_ws '' 1 2 3 4'') = [Some 1, Some 2, Some 3, Some 4]
   \<and> read_record float_digits ''move ||| mv ||| 5 6 7 8'' = Inr (''move'', ''mv'', 8)
   \<and> P2T_weight (snd (make_phrase_table float_digits (Parser_init 2 3)
        [''copy file ||| cp ||| 1 2 3 4'', ''move ||| mv ||| 5 6 7 8''])) ''copy file'' ''cp'' = Some 4
   \<and> T2P_weight (snd (make_phrase_table float_digits (Parser_init 2 3)
        [''copy file ||| cp ||| 1 2 3 4'', ''move ||| mv ||| 5 6 7 8''])) ''cp'' ''copy file'' = Some 4"
proof -
  have parts: "split_bars (strip ''copy file ||| cp ||| 1 2 3 4'')
                 = ''copy file '' # '' cp '' # '' 1 2 3 4'' # []"
    by code_simp
  have floats: "map float_digits (split_ws '' 1 2 3 4'') = [Some 1, Some 2, Some 3, Some 4]"
    by code_simp
  have other: "read_record float_digits ''move ||| mv ||| 5 6 7 8'' = Inr (''move'', ''mv'', 8)"
    by code_simp
  have s1: "strip ''copy file '' = ''copy file''" and s2: "strip '' cp '' = ''cp''"
    by code_simp+
  have last: "\<forall>l \<in> set [''move ||| mv ||| 5 6 7 8'']. \<forall>w.
                read_record float_digits l \<noteq> Inr (strip ''copy file '', strip '' cp '', w)"
    by (simp add: other s1 s2)
  from make_phrase_table_stores_fourth [OF demo_table_loaded parts floats last] parts floats other
  show ?thesis by (simp add: s1 s2)
qed

text \<open>
  C1 as stated, with the third float, fails: for the record
  \<open>copy file ||| cp ||| 1 2 3 4\<close> both tables hold 4, not 3.
\<close>

theorem make_phrase_table_third_float_counterexample:
  "fst (make_phrase_table float_digits (Parser_init 2 3) [''copy file ||| cp ||| 1 2 3 4'']) = None
   \<and> P2T_weight (snd (make_phrase_table float_digits (Parser_init 2 3)
                         [''copy file ||| cp ||| 1 2 3 4''])) ''copy file'' ''cp'' = Some 4
   \<and> T2P_weight (snd (make_phrase_table float_digits (Parser_init 2 3)
                         [''copy file ||| cp ||| 1 2 3 4''])) ''cp'' ''copy file'' = Some 4
   \<and> P2T_weight (snd (make_phrase_table float_digits (Parser_init 2 3)
                         [''copy file ||| cp ||| 1 2 3 4''])) ''copy file'' ''cp'' \<noteq> Some 3
   \<and> T2P_weight (snd (make_phrase_table float_digits (Parser_init 2 3)
                         [''copy file ||| cp ||| 1 2 3 4''])) ''cp'' ''copy file'' \<noteq> Some 3"
  by code_simp

subsection \<open>C2: \<open>push\<close> and \<open>pop\<close> of the start cell\<close>

text \<open>
  C2 says that a call of \<open>dfs\<close> pops exactly when it has pushed, and that the call on the
  start cell does neither. The code tests \<open>term\<close> again before \<open>self.pop()\<close>, after the
  \<open>for\<close> loop has assigned the legal tokens to \<open>term\<close>. With maximum length 1 and the
  one legal token \<open>ls\<close>, the call on the start cell pushes nothing, and the child returns
  at once because it has the maximum length; the enumerator has then received a single
  \<open>pop\<close> and no \<open>push\<close>.
\<close>

theorem dfs_start_cell_pops_without_push:
  "dfs 2 (demo_parser\<lparr>max_command_length := 1\<rparr>) (traced demo_enum) start_cell
      [''list'', ''files''] (([], []), [])
   = Some (Inr (([], [Pop]), [demo_ls]))"
  by code_simp

subsection \<open>C3: the lengths of the recorded cells\<close>

text \<open>
  C3. When the traversal from the start cell returns, every cell in \<open>final_cells\<close> has a
  length strictly above \<open>min_command_length\<close> and at most \<open>max_command_length\<close>.
  Every call of the traversal is on a cell of at most the maximum length, and the
  backpointer of such a cell never has the maximum length: a cell of maximum length gets
  no child. A call on a cell below the maximum length that has passed the two tests on
  its term leads to a call on a child for every legal token, whether or not the cell was
  recorded: recording does not end the branch. And \<open>dfs\<close> itself, on any cell of maximum
  length, returns at once: the enumerator state is the one it was called with, so
  nothing was pushed or popped and no token was looked at, and the only cell that can
  have been added to \<open>final_cells\<close> is the cell of the call.
\<close>

theorem dfs_recorded_length_bounds:
  assumes "dfs n self E start_cell ws (g, []) = Some (Inr (g', final_cells))"
  shows "(\<forall>r \<in> set final_cells.
            min_command_length self < length_c r \<and> length_c r \<le> max_command_length self)
       \<and> (\<forall>m c gc fc. visits self E ws n start_cell (g, []) m c (gc, fc) \<longrightarrow>
            length_c c \<le> max_command_length self
            \<and> (\<forall>b. backpointer c = Some b \<longrightarrow> length_c b \<noteq> max_command_length self))
       \<and> (\<forall>m c gc fc tok. visits self E ws n start_cell (g, []) (Suc m) c (gc, fc)
              \<and> term_c c \<noteq> EOF E \<and> term_c c \<noteq> ''|''
              \<and> length_c c \<noteq> max_command_length self
              \<and> tok \<in> set (legal_tokens E (if term_c c \<noteq> START_SYMBOL then push E gc (term_c c) else gc))
            \<longrightarrow> (\<exists>ff st1. local_score self tok ws = Inr ff
                   \<and> visits self E ws n start_cell (g, []) m (Cell_init tok None (Some c) ff) st1))
       \<and> (\<forall>k c gc fc. length_c c = max_command_length self \<longrightarrow>
            dfs (Suc k) self E c ws (gc, fc) =
              Some (Inr (gc, if term_c c \<noteq> EOF E \<and> term_c c \<noteq> ''|''
                               \<and> min_command_length self < length_c c \<and> allow_eof E gc
                             then fc @ [c] else fc)))"
proof (intro conjI allI impI)
  have step: "\<And>c tok ff. length_c c \<le> max_command_length self \<Longrightarrow> term_c c \<noteq> EOF E
                \<Longrightarrow> term_c c \<noteq> ''|'' \<Longrightarrow> length_c c \<noteq> max_command_length self
                \<Longrightarrow> length_c (Cell_init tok None (Some c) ff) \<le> max_command_length self"
    by (simp add: length_c_child)
  have "length_c start_cell \<le> max_command_length self" by (simp add: start_cell_simps)
  from dfs_records [where I = "\<lambda>c. length_c c \<le> max_command_length self", OF step this assms]
  show "\<forall>r \<in> set final_cells.
            min_command_length self < length_c r \<and> length_c r \<le> max_command_length self"
    by auto
next
  fix m c gc fc
  assume v: "visits self E ws n start_cell (g, []) m c (gc, fc)"
  show "length_c c \<le> max_command_length self"
    by (rule visits_length [OF v]) (simp add: start_cell_simps)
next
  fix m c gc fc b
  assume v: "visits self E ws n start_cell (g, []) m c (gc, fc)" and b: "backpointer c = Some b"
  from visits_backpointer [OF v] b show "length_c b \<noteq> max_command_length self"
    by (auto simp: start_cell_simps)
next
  fix m c gc fc tok
  assume a: "visits self E ws n start_cell (g, []) (Suc m) c (gc, fc)
              \<and> term_c c \<noteq> EOF E \<and> term_c c \<noteq> ''|''
              \<and> length_c c \<noteq> max_command_length self
              \<and> tok \<in> set (legal_tokens E (if term_c c \<noteq> START_SYMBOL then push E gc (term_c c) else gc))"
  then show "\<exists>ff st1. local_score self tok ws = Inr ff
                   \<and> visits self E ws n start_cell (g, []) m (Cell_init tok None (Some c) ff) st1"
    using visits_children [OF _ assms, of m c gc fc tok] by blast
next
  fix k c gc fc
  assume "length_c c = max_command_length self"
  then show "dfs (Suc k) self E c ws (gc, fc) =
              Some (Inr (gc, if term_c c \<noteq> EOF E \<and> term_c c \<noteq> ''|''
                               \<and> min_command_length self < length_c c \<and> allow_eof E gc
                             then fc @ [c] else fc))"
    by (rule dfs_at_max_any)
qed

text \<open>
  The theorem at the small grammar: both recorded cells have length 1 or 2, and the call
  on the cell for \<open>ls File\<close>, of maximum length, leaves the record of pushes and pops
  as it was.
\<close>

theorem dfs_recorded_length_bounds_witness:
  "dfs (Suc (max_command_length demo_parser)) demo_parser demo_enum start_cell
      (split_ws ''list files'') ([], []) = Some (Inr ([], [demo_ls, demo_ls_file]))
   \<and> min_command_length demo_parser < length_c demo_ls
   \<and> length_c demo_ls \<le> max_command_length demo_parser
   \<and> min_command_length demo_parser < length_c demo_ls_file
   \<and> length_c demo_ls_file \<le> max_command_length demo_parser
   \<and> dfs (Suc (max_command_length demo_parser)) demo_parser (traced demo_enum) start_cell
      (split_ws ''list files'') (([], []), [])
       = Some (Inr (([], [Push ''ls'', Pop, Pop]), [demo_ls, demo_ls_file]))
   \<and> length_c demo_ls_file = max_command_length demo_parser
   \<and> dfs (Suc 0) demo_parser (traced demo_enum) demo_ls_file (split_ws ''list files'')
        (([''ls''], [Push ''ls'']), [demo_ls])
       = Some (Inr (([''ls''], [Push ''ls'']), [demo_ls, demo_ls_file]))"
proof -
  have at_max: "length_c demo_ls_file = max_command_length demo_parser" by code_simp
  have recorded: "term_c demo_ls_file \<noteq> EOF (traced demo_enum) \<and> term_c demo_ls_file \<noteq> ''|''
      \<and> min_command_length demo_parser < length_c demo_ls_file
      \<and> allow_eof (traced demo_enum) ([''ls''], [Push ''ls''])"
    by code_simp
  from dfs_recorded_length_bounds [OF demo_dfs_traced] at_max
  have "dfs (Suc 0) demo_parser (traced demo_enum) demo_ls_file (split_ws ''list files'')
          (([''ls''], [Push ''ls'']), [demo_ls])
        = Some (Inr (([''ls''], [Push ''ls'']),
             if term_c demo_ls_file \<noteq> EOF (traced demo_enum) \<and> term_c demo_ls_file \<noteq> ''|''
                \<and> min_command_length demo_parser < length_c demo_ls_file
                \<and> allow_eof (traced demo_enum) ([''ls''], [Push ''ls''])
             then [demo_ls] @ [demo_ls_file] else [demo_ls]))"
    by blast
  with recorded have last: "dfs (Suc 0) demo_parser (traced demo_enum) demo_ls_file
          (split_ws ''list files'') (([''ls''], [Push ''ls'']), [demo_ls])
        = Some (Inr (([''ls''], [Push ''ls'']), [demo_ls, demo_ls_file]))"
    by simp
  from dfs_recorded_length_bounds [OF demo_dfs] demo_dfs demo_dfs_traced at_max last
  show ?thesis by simp
qed

subsection \<open>C4: score and length of a new cell\<close>

text \<open>
  C4. A cell built with the backpointer \<open>b\<close> and the fired features \<open>ff\<close> has the score
  of \<open>b\<close> plus the sum of the weights in \<open>ff\<close>, and the length of \<open>b\<close> plus one. A cell
  built without a backpointer has score 0 and length 0, and so has the start cell of
  \<open>parse\<close>.
\<close>

theorem Cell_init_score_length:
  "score (Cell_init t p (Some b) ff) = score b + sum_list (dict_values ff)
   \<and> length_c (Cell_init t p (Some b) ff) = length_c b + 1
   \<and> score (Cell_init t p None ff) = 0
   \<and> length_c (Cell_init t p None ff) = 0
   \<and> score start_cell = 0 \<and> length_c start_cell = 0"
  by (simp add: Cell_init_def start_cell_def)

text \<open>The theorem at the two cells of the small grammar.\<close>

theorem Cell_init_score_length_witness:
  "score demo_ls = 4 \<and> length_c demo_ls = 1 \<and> score demo_ls_file = 12 \<and> length_c demo_ls_file = 2"
  using Cell_init_score_length [where t = "''ls''" and p = None and b = start_cell
          and ff = "[(''list'', 4)]"]
        Cell_init_score_length [where t = "''File''" and p = None and b = demo_ls
          and ff = "[(''files'', 8)]"]
  by (simp add: demo_ls_def demo_ls_file_def dict_values_def)

subsection \<open>C5: final scores and the ranking\<close>

text \<open>
  C5. When the traversal has returned the recorded cells \<open>final_cells\<close>, \<open>parse\<close> prints
  the rows of a list \<open>ranked\<close> of cells such that: \<open>ranked\<close>, followed by some list
  \<open>rest\<close>, holds exactly the recorded cells after \<open>final_score\<close>; the scores fall along
  \<open>ranked\<close> and on into \<open>rest\<close>; \<open>ranked\<close> has \<open>top_K\<close> cells, or all of them when
  there are fewer, and then \<open>rest\<close> is empty. The row of a cell after \<open>final_score\<close> is
  the row of the cell with the score raised by \<open>redundant_word_score\<close> times the number
  of different input words outside \<open>cnl_words\<close>. Without a second argument, \<open>top_K\<close>
  is 50. \<open>cnl_words\<close> of a cell is the union of the \<open>covered_words\<close> of all cells on
  its chain of backpointers, the cell included; \<open>final_score\<close> does not change it; and
  the \<open>covered_words\<close> of a cell are the words with a fired feature at its step.
\<close>

theorem parse_ranking:
  assumes "dfs (Suc (max_command_length self)) self E start_cell (split_ws sent) (g, [])
             = Some (Inr (g', final_cells))"
  shows "\<exists>ranked rest.
           parse self E g sent top_K = Some (Inr (map (print_row E (set (split_ws sent))) ranked))
         \<and> mset (ranked @ rest) = mset (map (\<lambda>c. final_score self c (split_ws sent)) final_cells)
         \<and> sorted_wrt (\<lambda>a b. score b \<le> score a) (ranked @ rest)
         \<and> length ranked = min top_K (length final_cells)
         \<and> (length final_cells \<le> top_K \<longrightarrow> rest = [])
         \<and> (\<forall>c. print_row E (set (split_ws sent)) (final_score self c (split_ws sent))
                 = (print_row E (set (split_ws sent)) c)\<lparr>row_score :=
                     score c + redundant_word_score self
                                 * real (card (set (split_ws sent) - cnl_words c))\<rparr>)
         \<and> parse_default self E g sent = parse self E g sent 50
         \<and> (\<forall>c. cnl_words c = (\<Union>b \<in> set (chain_cells (Some c)). covered_words b))
         \<and> (\<forall>c. cnl_words (final_score self c (split_ws sent)) = cnl_words c)
         \<and> (\<forall>t p bp ff. covered_words (Cell_init t p bp ff) = set (map fst ff))"
proof -
  let ?scored = "map (\<lambda>c. final_score self c (split_ws sent)) final_cells"
  from rank_split [of top_K ?scored] obtain rest where
    r1: "mset (rank top_K ?scored @ rest) = mset ?scored"
    and r2: "sorted_wrt (\<lambda>a b. score b \<le> score a) (rank top_K ?scored @ rest)"
    and r3: "length final_cells \<le> top_K \<longrightarrow> rest = []" by auto
  have r4: "length (rank top_K ?scored) = min top_K (length final_cells)"
    by (simp add: length_rank)
  have r5: "parse_default self E g sent = parse self E g sent 50"
    by (simp add: parse_default_def)
  note r0 = parse_of_dfs [OF assms, of top_K]
  show ?thesis
  proof (rule exI [of _ "rank top_K ?scored"], rule exI [of _ rest], intro conjI allI)
    show "parse self E g sent top_K
            = Some (Inr (map (print_row E (set (split_ws sent))) (rank top_K ?scored)))"
      by (rule r0)
  qed (rule r1 r2 r3 r4 r5 print_row_final_score cnl_words_chain cnl_words_final_score
         covered_words_Cell_init)+
qed

text \<open>
  The theorem at the small grammar with \<open>top_K = 1\<close>: one row out of two cells, and the
  words that the two cells cover.
\<close>

theorem parse_ranking_witness:
  "dfs (Suc (max_command_length demo_parser)) demo_parser demo_enum start_cell
      (split_ws ''list files'') ([], []) = Some (Inr ([], [demo_ls, demo_ls_file]))
   \<and> map_option (map_sum id length) (parse demo_parser demo_enum [] ''list files'' 1)
       = Some (Inr 1)
   \<and> cnl_words demo_ls = {''list''}
   \<and> cnl_words demo_ls_file = {''list'', ''files''}"
proof -
  from parse_ranking [OF demo_dfs, of 1] obtain ranked where
    "parse demo_parser demo_enum [] ''list files'' 1
       = Some (Inr (map (print_row demo_enum (set (split_ws ''list files''))) ranked))"
    and "length ranked = min 1 (length [demo_ls, demo_ls_file])"
    and "\<forall>c. cnl_words c = (\<Union>b \<in> set (chain_cells (Some c)). covered_words b)" by blast
  then show ?thesis using demo_dfs by (simp add: demo_cnl demo_cnl2)
qed

subsection \<open>C6: a rejected push\<close>

text \<open>
  C6. Let the traversal that \<open>parse\<close> starts reach a call of \<open>dfs\<close> on a cell that passes
  the tests before \<open>self.allows(term)\<close>, and let the enumerator not allow the term of the
  cell. Then that call raises \<open>SystemExit(1)\<close>, \<open>parse\<close> ends with the same exception,
  and the exit status is 1: no call returns normally after the rejection.
\<close>

theorem rejected_push_exits:
  assumes "visits self E (split_ws sent) (Suc (max_command_length self)) start_cell (g, [])
             (Suc m) c (gc, fc)"
    and "term_c c \<noteq> EOF E" and "term_c c \<noteq> ''|''"
    and "length_c c \<noteq> max_command_length self"
    and "term_c c \<noteq> START_SYMBOL"
    and "\<not> allows E gc (term_c c)"
  shows "dfs (Suc m) self E c (split_ws sent) (gc, fc) = Some (Inl (SystemExit 1))
       \<and> parse self E g sent top_K = Some (Inl (SystemExit 1))
       \<and> exit_status (Inl (SystemExit 1) :: error + row list) = 1"
proof -
  have "dfs (Suc (max_command_length self)) self E start_cell (split_ws sent) (g, [])
          = Some (Inl (SystemExit 1))"
    by (rule visits_rejected [OF assms(1) refl refl assms(2-6)])
  then have "parse self E g sent top_K = Some (Inl (SystemExit 1))" by (rule parse_raises)
  moreover have "dfs (Suc m) self E c (split_ws sent) (gc, fc) = Some (Inl (SystemExit 1))"
    using assms(2-6) by (simp add: dfs_rejected)
  ultimately show ?thesis by simp
qed

text \<open>
  The theorem at the second enumerator, which offers \<open>rm\<close> after \<open>ls\<close> and does not
  allow it.
\<close>

theorem rejected_push_exits_witness:
  "visits demo_parser demo_enum_rm (split_ws ''list files'') (Suc (max_command_length demo_parser))
      start_cell ([], []) (Suc (Suc 0)) demo_rm ([], [demo_ls])
   \<and> term_c demo_rm \<noteq> EOF demo_enum_rm \<and> term_c demo_rm \<noteq> ''|''
   \<and> length_c demo_rm \<noteq> max_command_length demo_parser
   \<and> term_c demo_rm \<noteq> START_SYMBOL
   \<and> \<not> allows demo_enum_rm [] (term_c demo_rm)
   \<and> parse demo_parser demo_enum_rm [] ''list files'' 50 = Some (Inl (SystemExit 1))"
proof -
  let ?ws = "split_ws ''list files''"
  have v: "visits demo_parser demo_enum_rm ?ws (Suc (Suc (Suc 0))) start_cell ([], [])
             (Suc (Suc 0)) demo_rm ([], [demo_ls])"
  proof (rule visits_child [where pre = "[''ls'']" and tok = "''rm''" and post = "[]"
                             and t' = "''ls''" and ff = "[]" and ?g1.0 = "[]" and ?fc1.0 = "[]"])
    show "term_c start_cell \<noteq> EOF demo_enum_rm" by code_simp
    show "term_c start_cell \<noteq> ''|''" by code_simp
    show "length_c start_cell \<noteq> max_command_length demo_parser" by code_simp
    show "term_c start_cell = START_SYMBOL \<or> allows demo_enum_rm [] (term_c start_cell)"
      by (simp add: start_cell_simps)
    show "[] = (if term_c start_cell \<noteq> START_SYMBOL
                then push demo_enum_rm [] (term_c start_cell) else [])"
      by (simp add: start_cell_simps)
    show "[] = (if min_command_length demo_parser < length_c start_cell \<and> allow_eof demo_enum_rm []
                then [] @ [start_cell] else [])"
      by (simp add: start_cell_simps)
    show "legal_tokens demo_enum_rm [] = [''ls''] @ ''rm'' # []" by code_simp
    show "dfs_for (Suc (Suc 0)) demo_parser demo_enum_rm start_cell ?ws [''ls'']
            (term_c start_cell) ([], []) = Some (Inr (''ls'', [], [demo_ls]))"
      by code_simp
    show "local_score demo_parser ''rm'' ?ws = Inr []" by code_simp
    show "visits demo_parser demo_enum_rm ?ws (Suc (Suc 0))
            (Cell_init ''rm'' None (Some start_cell) []) ([], [demo_ls])
            (Suc (Suc 0)) demo_rm ([], [demo_ls])"
      unfolding demo_rm_def by (rule visits_here)
  qed
  then have v': "visits demo_parser demo_enum_rm ?ws (Suc (max_command_length demo_parser))
                   start_cell ([], []) (Suc (Suc 0)) demo_rm ([], [demo_ls])"
    by (simp only: demo_max)
  have h1: "term_c demo_rm \<noteq> EOF demo_enum_rm" by code_simp
  have h2: "term_c demo_rm \<noteq> ''|''" by code_simp
  have h3: "length_c demo_rm \<noteq> max_command_length demo_parser" by code_simp
  have h4: "term_c demo_rm \<noteq> START_SYMBOL" by code_simp
  have h5: "\<not> allows demo_enum_rm [] (term_c demo_rm)" by code_simp
  from rejected_push_exits [OF v' h1 h2 h3 h4 h5, where top_K = 50] v' h1 h2 h3 h4 h5
  show ?thesis by simp
qed

subsection \<open>C7: malformed records\<close>

text \<open>
  C7, as amended. \<open>make_phrase_table\<close> raises an exception exactly when some line splits
  at \<open>|||\<close> into fewer than three parts, or its third part does not consist of exactly
  four whitespace-separated texts that \<open>float\<close> accepts. Parts after the third are not
  looked at. When it raises, there is a first line at which \<open>read_record\<close> fails, and the
  parser object holds the tables that the lines before it make. The exception is an
  \<open>IndexError\<close> or a \<open>ValueError\<close>.
\<close>

theorem make_phrase_table_failure:
  "((fst (make_phrase_table pyfloat self lines) \<noteq> None) =
      (\<exists>line \<in> set lines.
          length (split_bars (strip line)) < 3
          \<or> length (split_ws (split_bars (strip line) ! 2)) \<noteq> 4
          \<or> (\<exists>x \<in> set (split_ws (split_bars (strip line) ! 2)). pyfloat x = None)))
   \<and> (\<forall>e self'. make_phrase_table pyfloat self lines = (Some e, self') \<longrightarrow>
         (\<exists>pre bad post. lines = pre @ bad # post \<and> read_record pyfloat bad = Inl e
            \<and> make_phrase_table pyfloat self pre = (None, self'))
         \<and> (e = IndexError \<or> e = ValueError))"
proof (intro conjI allI impI)
  have "fst (make_phrase_table pyfloat self lines) = fst (load_lines pyfloat lines (Map.empty, Map.empty))"
    by (simp add: make_phrase_table_def split: prod.splits)
  then show "(fst (make_phrase_table pyfloat self lines) \<noteq> None) =
      (\<exists>line \<in> set lines.
          length (split_bars (strip line)) < 3
          \<or> length (split_ws (split_bars (strip line) ! 2)) \<noteq> 4
          \<or> (\<exists>x \<in> set (split_ws (split_bars (strip line) ! 2)). pyfloat x = None))"
    by (simp only: load_lines_fails_iff read_record_fails_iff)
next
  fix e self'
  assume a: "make_phrase_table pyfloat self lines = (Some e, self')"
  obtain r p2t t2p where ll: "load_lines pyfloat lines (Map.empty, Map.empty) = (r, p2t, t2p)"
    by (metis prod_cases3)
  with a have r: "r = Some e" and s: "self' = self\<lparr>P2TScores := Some p2t, T2PScores := Some t2p\<rparr>"
    by (auto simp: make_phrase_table_def)
  from load_lines_failure_prefix [OF ll [unfolded r]] obtain pre bad post where
    f: "lines = pre @ bad # post" "read_record pyfloat bad = Inl e"
    "load_lines pyfloat pre (Map.empty, Map.empty) = (None, p2t, t2p)" by blast
  with s have "lines = pre @ bad # post \<and> read_record pyfloat bad = Inl e
            \<and> make_phrase_table pyfloat self pre = (None, self')"
    by (simp add: make_phrase_table_def)
  then show "\<exists>pre bad post. lines = pre @ bad # post \<and> read_record pyfloat bad = Inl e
            \<and> make_phrase_table pyfloat self pre = (None, self')" by blast
  from f(2) show "e = IndexError \<or> e = ValueError" by (rule read_record_error_kind)
qed

text \<open>The theorem at a table whose second line has two parts.\<close>

theorem make_phrase_table_failure_witness:
  "length (split_bars (strip ''c ||| d'')) < 3
   \<and> fst (make_phrase_table float_digits (Parser_init 2 3) [''a ||| b ||| 1 2 3 4'', ''c ||| d''])
       \<noteq> None"
proof -
  have short: "length (split_bars (strip ''c ||| d'')) < 3" by code_simp
  then have "\<exists>line \<in> set [''a ||| b ||| 1 2 3 4'', ''c ||| d''].
          length (split_bars (strip line)) < 3
          \<or> length (split_ws (split_bars (strip line) ! 2)) \<noteq> 4
          \<or> (\<exists>x \<in> set (split_ws (split_bars (strip line) ! 2)). float_digits x = None)"
    by simp
  with make_phrase_table_failure [of float_digits "Parser_init 2 3"
         "[''a ||| b ||| 1 2 3 4'', ''c ||| d'']"] short
  show ?thesis by blast
qed

text \<open>
  C7 as stated fails twice: a line of four parts is read without an exception, and after
  the exception at a second line the table holds the record of the first line.
\<close>

theorem make_phrase_table_failure_counterexample:
  "length (split_bars (strip ''a ||| b ||| 1 2 3 4 ||| junk'')) = 4
   \<and> fst (make_phrase_table float_digits (Parser_init 2 3) [''a ||| b ||| 1 2 3 4 ||| junk'']) = None
   \<and> fst (make_phrase_table float_digits (Parser_init 2 3) [''a ||| b ||| 1 2 3 4'', ''c ||| d''])
       = Some IndexError
   \<and> P2T_weight (snd (make_phrase_table float_digits (Parser_init 2 3)
                         [''a ||| b ||| 1 2 3 4'', ''c ||| d''])) ''a'' ''b'' = Some 4"
  by code_simp

subsection \<open>C8: \<open>genCommand\<close>\<close>



subsection \<open>C9: pipe and end-of-input cells\<close>

text \<open>
  C9. A call of \<open>dfs\<close> on a cell whose term is the pipe or the end-of-input token returns
  at once, with the enumerator state and the recorded cells unchanged. In a traversal
  from the start cell no cell has a backpointer with such a term, and no recorded cell
  has such a term. Every command that \<open>parse\<close> prints belongs to a recorded cell and is
  the space-joined list of the tokens of its chain; the pipe is not among these tokens,
  and neither is the end-of-input token, unless that token is the text \<open>*\<close> that
  \<open>genCommand\<close> writes for a hole.
\<close>

theorem pipe_and_eof_cells:
  "(term_c c = EOF E \<or> term_c c = ''|'' \<longrightarrow>
      dfs (Suc k) self E c ws (gc, fc) = Some (Inr (gc, fc)))
   \<and> (visits self E ws n start_cell (g, []) m c st \<longrightarrow>
        (\<forall>b. backpointer c = Some b \<longrightarrow> term_c b \<noteq> EOF E \<and> term_c b \<noteq> ''|''))
   \<and> (dfs n self E start_cell ws (g, []) = Some (Inr (g', final_cells)) \<longrightarrow>
        (\<forall>r \<in> set final_cells. term_c r \<noteq> EOF E \<and> term_c r \<noteq> ''|''))
   \<and> (parse self E g sent top_K = Some (Inr rows) \<longrightarrow>
        (\<exists>g' final_cells.
           dfs (Suc (max_command_length self)) self E start_cell (split_ws sent) (g, [])
             = Some (Inr (g', final_cells))
           \<and> (\<forall>r \<in> set rows. \<exists>c \<in> set final_cells. \<exists>toks.
                 toks = map (\<lambda>t. if t = HOLE E then ''*'' else t) (drop 1 (path_terms (Some c)))
                 \<and> command r = join_space toks
                 \<and> ''|'' \<notin> set toks
                 \<and> (EOF E \<noteq> ''*'' \<longrightarrow> EOF E \<notin> set toks))))"
proof (intro conjI impI)
  assume "term_c c = EOF E \<or> term_c c = ''|''"
  then show "dfs (Suc k) self E c ws (gc, fc) = Some (Inr (gc, fc))" by (rule dfs_skip)
next
  assume v: "visits self E ws n start_cell (g, []) m c st"
  show "\<forall>b. backpointer c = Some b \<longrightarrow> term_c b \<noteq> EOF E \<and> term_c b \<noteq> ''|''"
    using visits_backpointer [OF v] by (auto simp: start_cell_simps)
next
  assume d: "dfs n self E start_cell ws (g, []) = Some (Inr (g', final_cells))"
  show "\<forall>r \<in> set final_cells. term_c r \<noteq> EOF E \<and> term_c r \<noteq> ''|''"
    using dfs_recorded_paths [OF d] by (auto simp: path_terms_Some)
next
  assume p: "parse self E g sent top_K = Some (Inr rows)"
  let ?ws = "split_ws sent"
  from parse_Inr_dfs [OF p] obtain g' fc where
    d: "dfs (Suc (max_command_length self)) self E start_cell ?ws (g, []) = Some (Inr (g', fc))"
    and rows: "rows = map (print_row E (set ?ws)) (rank top_K (map (\<lambda>c. final_score self c ?ws) fc))"
    by blast
  have "\<forall>r \<in> set rows. \<exists>c \<in> set fc. \<exists>toks.
          toks = map (\<lambda>t. if t = HOLE E then ''*'' else t) (drop 1 (path_terms (Some c)))
          \<and> command r = join_space toks
          \<and> ''|'' \<notin> set toks
          \<and> (EOF E \<noteq> ''*'' \<longrightarrow> EOF E \<notin> set toks)"
  proof
    fix r assume "r \<in> set rows"
    with rows set_rank [of top_K "map (\<lambda>c. final_score self c ?ws) fc"]
    obtain c where c: "c \<in> set fc" and r: "r = print_row E (set ?ws) (final_score self c ?ws)"
      by auto
    let ?toks = "map (\<lambda>t. if t = HOLE E then ''*'' else t) (drop 1 (path_terms (Some c)))"
    have "command r = command (print_row E (set ?ws) c)"
      by (simp add: r print_row_final_score)
    then have cmd: "command r = join_space ?toks"
      using genCommand_path [of "HOLE E" c]
      by (simp add: print_row_def hole_marker_def [abs_def])
    from dfs_recorded_paths [OF d] c
    have ok: "\<forall>t \<in> set (path_terms (Some c)). t \<noteq> EOF E \<and> t \<noteq> ''|''" by blast
    have sub: "set (drop 1 (path_terms (Some c))) \<subseteq> set (path_terms (Some c))"
      by (rule set_drop_subset)
    have "''|'' \<notin> set ?toks" using ok sub by auto
    moreover have "EOF E \<noteq> ''*'' \<longrightarrow> EOF E \<notin> set ?toks" using ok sub by auto
    ultimately show "\<exists>c \<in> set fc. \<exists>toks.
          toks = map (\<lambda>t. if t = HOLE E then ''*'' else t) (drop 1 (path_terms (Some c)))
          \<and> command r = join_space toks
          \<and> ''|'' \<notin> set toks
          \<and> (EOF E \<noteq> ''*'' \<longrightarrow> EOF E \<notin> set toks)"
      using c cmd by blast
  qed
  with d show "\<exists>g' final_cells.
           dfs (Suc (max_command_length self)) self E start_cell (split_ws sent) (g, [])
             = Some (Inr (g', final_cells))
           \<and> (\<forall>r \<in> set rows. \<exists>c \<in> set final_cells. \<exists>toks.
                 toks = map (\<lambda>t. if t = HOLE E then ''*'' else t) (drop 1 (path_terms (Some c)))
                 \<and> command r = join_space toks
                 \<and> ''|'' \<notin> set toks
                 \<and> (EOF E \<noteq> ''*'' \<longrightarrow> EOF E \<notin> set toks))"
    by blast
qed

text \<open>The theorem at the small grammar, for the pipe cell under \<open>ls\<close> and the two recorded cells.\<close>

theorem pipe_and_eof_cells_witness:
  "term_c demo_pipe = ''|''
   \<and> dfs (Suc 0) demo_parser demo_enum demo_pipe [''list'', ''files''] ([''ls''], [demo_ls])
       = Some (Inr ([''ls''], [demo_ls]))
   \<and> dfs (Suc (max_command_length demo_parser)) demo_parser demo_enum start_cell
      (split_ws ''list files'') ([], []) = Some (Inr ([], [demo_ls, demo_ls_file]))
   \<and> term_c demo_ls \<noteq> ''|'' \<and> term_c demo_ls_file \<noteq> ''|''
   \<and> term_c demo_ls \<noteq> EOF demo_enum \<and> term_c demo_ls_file \<noteq> EOF demo_enum"
proof -
  have p: "term_c demo_pipe = ''|''" by code_simp
  have "dfs (Suc 0) demo_parser demo_enum demo_pipe (split_ws ''list files'') ([''ls''], [demo_ls])
          = Some (Inr ([''ls''], [demo_ls]))
        \<and> term_c demo_ls \<noteq> ''|'' \<and> term_c demo_ls_file \<noteq> ''|''
        \<and> term_c demo_ls \<noteq> EOF demo_enum \<and> term_c demo_ls_file \<noteq> EOF demo_enum"
    using pipe_and_eof_cells [where c = demo_pipe and E = demo_enum and k = 0
         and self = demo_parser and ws = "split_ws ''list files''" and gc = "[''ls'']"
         and fc = "[demo_ls]" and n = "Suc (max_command_length demo_parser)" and g = "[]"
         and g' = "[]" and final_cells = "[demo_ls, demo_ls_file]"]
       p demo_dfs
    by simp
  moreover have "split_ws ''list files'' = [''list'', ''files'']" by code_simp
  ultimately show ?thesis using p demo_dfs by simp
qed

subsection \<open>C10: \<open>ungrounded_token_score\<close>\<close>

text \<open>
  C10. \<open>parse\<close> gives the same result for any two values of the field
  \<open>ungrounded_token_score\<close>, all else being equal.
\<close>

theorem parse_ignores_ungrounded_token_score:
  "parse (self\<lparr>ungrounded_token_score := a\<rparr>) E g sent top_K
     = parse (self\<lparr>ungrounded_token_score := b\<rparr>) E g sent top_K"
proof -
  have "\<And>x. parse (self\<lparr>ungrounded_token_score := x\<rparr>) E g sent top_K = parse self E g sent top_K"
    by (simp add: parse_def dfs_ungrounded final_score_def Let_def
          split: option.splits sum.splits prod.splits)
  then show ?thesis by simp
qed

text \<open>The theorem at the small grammar, for the values 0 and 7.\<close>

theorem parse_ignores_ungrounded_token_score_witness:
  "parse (demo_parser\<lparr>ungrounded_token_score := 0\<rparr>) demo_enum [] ''list files'' 50
     = parse (demo_parser\<lparr>ungrounded_token_score := 7\<rparr>) demo_enum [] ''list files'' 50"
  by (rule parse_ignores_ungrounded_token_score)

end
